theory Spec2Isabelle
  imports Complex_Main "HOL-Library.Multiset"
begin

section \<open>Data model of Sunshine.py\<close>

text \<open>
  The allocator works on a pandas table read from a spreadsheet. A data row carries the
  cells the program looks at: the name, the gender, the urban/rural origin (present only
  when the sheet has that column) and the total score. Python strings are compared for
  equality only, so a cell is the byte string of its UTF-8 text.
\<close>

record student =
  name :: string
  gender :: string
  origin :: string
  score :: real

text \<open>
  A row as \<open>pd.read_excel\<close> delivers it, with the score cell already passed through
  \<open>pd.to_numeric(errors='coerce')\<close>: \<open>None\<close> is the NaN of a cell that is empty or not
  a number.
\<close>

record raw_row =
  raw_name :: string
  raw_gender :: string
  raw_origin :: string
  raw_score :: "real option"

record frame =
  has_origin_col :: bool
  rows :: "raw_row list"

text \<open>A row after the grade rank column has been added.\<close>

record ranked = student +
  grade_rank :: int

text \<open>A row of a distributed sub-group: the ranked row with its class cell.\<close>

type_synonym assigned = "ranked \<times> int"

text \<open>The fields of \<open>SunshineDistributor\<close> that the allocation reads.\<close>

record distributor =
  K :: int
  top_N :: int
  bot_N :: int
  has_rural :: bool

datatype error = InsufficientDataError | KeyError | ValueError

text \<open>The cell literals of the source, as UTF-8 bytes.\<close>

definition male :: string where
  "male = [CHR 0xE7, CHR 0x94, CHR 0xB7]"

definition female :: string where
  "female = [CHR 0xE5, CHR 0xA5, CHR 0xB3]"

definition urban :: string where
  "urban = [CHR 0xE5, CHR 0x9F, CHR 0x8E, CHR 0xE5, CHR 0x8C, CHR 0xBA]"

definition rural :: string where
  "rural = [CHR 0xE4, CHR 0xB9, CHR 0xA1, CHR 0xE4, CHR 0xB8, CHR 0x8B]"

section \<open>Library behaviour the program relies on\<close>

text \<open>
  Python's slice \<open>xs[lo:hi]\<close> (and \<open>df.iloc[lo:hi]\<close>): a negative bound counts from the
  end, every bound is clipped to the length, and a missing bound is the respective end.
\<close>

definition norm_idx :: "int \<Rightarrow> nat \<Rightarrow> nat" where
  "norm_idx i n =
     (if i < 0 then (if i + int n < 0 then 0 else nat (i + int n))
      else (if int n < i then n else nat i))"

definition slice :: "int option \<Rightarrow> int option \<Rightarrow> 'a list \<Rightarrow> 'a list" where
  "slice lo hi xs =
     (let n = length xs;
          a = (case lo of None \<Rightarrow> 0 | Some i \<Rightarrow> norm_idx i n);
          b = (case hi of None \<Rightarrow> n | Some j \<Rightarrow> norm_idx j n)
      in take (b - a) (drop a xs))"

text \<open>
  \<open>Series.rank(method='min', ascending=False)\<close>: the values are put in descending order
  and every member of a run of equal values gets the 1-based position of the first
  member of the run.
\<close>

fun first_pos :: "'a \<Rightarrow> 'a list \<Rightarrow> nat" where
  "first_pos x [] = 0"
| "first_pos x (y # ys) = (if x = y then 0 else Suc (first_pos x ys))"

definition rank_min_desc :: "real list \<Rightarrow> real \<Rightarrow> int" where
  "rank_min_desc vals v = int (first_pos v (rev (sort vals))) + 1"

text \<open>
  \<open>sort_values(by='total score', ascending=False)\<close> is called with the default sort
  kind, which pandas documents as not stable. The sort is therefore a parameter of the
  model, and all the program may rely on is that the result holds the same rows in
  descending order of score. The order among rows of equal score is the library's.
\<close>

type_synonym sorter = "ranked list \<Rightarrow> ranked list"

definition sorts_desc :: "sorter \<Rightarrow> bool" where
  "sorts_desc srt \<longleftrightarrow>
     (\<forall>xs. mset (srt xs) = mset xs \<and> sorted_wrt (\<lambda>a b. score b \<le> score a) (srt xs))"

text \<open>
  The stable descending sort (pandas' \<open>kind='stable'\<close>): reverse, sort ascending
  stably, reverse again. It serves as the concrete sort of the example runs.
\<close>

definition stable_sort_desc :: sorter where
  "stable_sort_desc xs = rev (sort_key score (rev xs))"

text \<open>
  \<open>random.shuffle\<close> permutes its argument in place. The generator is global state that
  advances with every call; the model carries the number of calls made so far, and
  \<open>shf i xs\<close> is what the \<open>i\<close>-th call makes of \<open>xs\<close>.
\<close>

type_synonym shuffler = "nat \<Rightarrow> int list \<Rightarrow> int list"

definition is_shuffle :: "shuffler \<Rightarrow> bool" where
  "is_shuffle shf \<longleftrightarrow> (\<forall>i xs. mset (shf i xs) = mset xs)"

text \<open>
  The last \<open>sort_values\<close>, by class ascending and then score descending. Again only the
  contract is used: same rows, in that order.
\<close>

type_synonym final_sorter = "assigned list \<Rightarrow> assigned list"

definition class_then_score :: "assigned \<Rightarrow> assigned \<Rightarrow> bool" where
  "class_then_score a b \<longleftrightarrow>
     snd a < snd b \<or> (snd a = snd b \<and> score (fst b) \<le> score (fst a))"

definition sorts_final :: "final_sorter \<Rightarrow> bool" where
  "sorts_final fsrt \<longleftrightarrow>
     (\<forall>xs. mset (fsrt xs) = mset xs \<and> sorted_wrt class_then_score (fsrt xs))"

section \<open>The allocator\<close>

definition init :: "int \<Rightarrow> int \<Rightarrow> int \<Rightarrow> distributor" where
  "init n_classes top_n_per_class bottom_n_per_class =
     \<lparr>K = n_classes,
      top_N = top_n_per_class * n_classes,
      bot_N = bottom_n_per_class * n_classes,
      has_rural = False\<rparr>"

text \<open>
  \<open>load_data\<close> for a file that exists and has the required columns: it switches
  \<open>has_rural\<close> on when the origin column is there and drops every row whose score is
  not a number.
\<close>

definition clean :: "raw_row list \<Rightarrow> student list" where
  "clean rs =
     List.map_filter
       (\<lambda>r. case raw_score r of
              None \<Rightarrow> None
            | Some v \<Rightarrow> Some \<lparr>name = raw_name r, gender = raw_gender r,
                              origin = raw_origin r, score = v\<rparr>) rs"

definition load_data :: "distributor \<Rightarrow> frame \<Rightarrow> distributor \<times> student list" where
  "load_data d f =
     ((if has_origin_col f then d\<lparr>has_rural := True\<rparr> else d), clean (rows f))"

text \<open>
  The \<open>while\<close> loop that builds the snake pattern. With an empty list of class ids
  it never ends, so it is a partial function: \<open>None\<close> is the run that does not return.
\<close>

partial_function (option) snake_loop :: "int list \<Rightarrow> nat \<Rightarrow> int list \<Rightarrow> int list option" where
  "snake_loop class_indices n snake_pattern =
     (if length snake_pattern < n
      then snake_loop class_indices n (snake_pattern @ class_indices @ rev class_indices)
      else Some snake_pattern)"

text \<open>
  \<open>_distribute_sub_group\<close>. The state is the list of distributed sub-groups collected
  so far and the number of \<open>random.shuffle\<close> calls made.
\<close>

type_synonym alloc_state = "assigned list list \<times> nat"

definition distribute_sub_group ::
  "sorter \<Rightarrow> shuffler \<Rightarrow> int \<Rightarrow> ranked list \<Rightarrow> alloc_state \<Rightarrow> alloc_state option" where
  "distribute_sub_group srt shf k sub_df st =
     (if sub_df = [] then Some st
      else
        let sorted_df = srt sub_df;
            class_indices = shf (snd st) [1..k]
        in case snake_loop class_indices (length sorted_df) [] of
             None \<Rightarrow> None
           | Some snake_pattern \<Rightarrow>
               Some (fst st @ [zip sorted_df (take (length sorted_df) snake_pattern)],
                     Suc (snd st)))"

definition groups_of :: "bool \<Rightarrow> ranked list \<Rightarrow> ranked list list" where
  "groups_of with_rural layer =
     (if with_rural then
        [filter (\<lambda>r. gender r = male \<and> origin r = urban) layer,
         filter (\<lambda>r. gender r = male \<and> origin r = rural) layer,
         filter (\<lambda>r. gender r = female \<and> origin r = urban) layer,
         filter (\<lambda>r. gender r = female \<and> origin r = rural) layer]
      else
        [filter (\<lambda>r. gender r = male) layer,
         filter (\<lambda>r. gender r = female) layer])"

fun distribute_groups ::
  "sorter \<Rightarrow> shuffler \<Rightarrow> int \<Rightarrow> ranked list list \<Rightarrow> alloc_state \<Rightarrow> alloc_state option" where
  "distribute_groups srt shf k [] st = Some st"
| "distribute_groups srt shf k (g # gs) st =
     (case distribute_sub_group srt shf k g st of
        None \<Rightarrow> None
      | Some st' \<Rightarrow> distribute_groups srt shf k gs st')"

fun distribute_layers ::
  "sorter \<Rightarrow> shuffler \<Rightarrow> int \<Rightarrow> bool \<Rightarrow> ranked list list \<Rightarrow> alloc_state \<Rightarrow> alloc_state option" where
  "distribute_layers srt shf k with_rural [] st = Some st"
| "distribute_layers srt shf k with_rural (layer # layers) st =
     (case distribute_groups srt shf k (groups_of with_rural layer) st of
        None \<Rightarrow> None
      | Some st' \<Rightarrow> distribute_layers srt shf k with_rural layers st')"

text \<open>The rank column, computed over the whole cleaned table.\<close>

definition add_rank :: "student list \<Rightarrow> ranked list" where
  "add_rank df =
     map (\<lambda>s. \<lparr>name = name s, gender = gender s, origin = origin s, score = score s,
               grade_rank = rank_min_desc (map score df) (score s)\<rparr>) df"

definition df_top :: "distributor \<Rightarrow> ranked list \<Rightarrow> ranked list" where
  "df_top d df = slice None (Some (top_N d)) df"

definition df_bot :: "distributor \<Rightarrow> ranked list \<Rightarrow> ranked list" where
  "df_bot d df = slice (Some (- bot_N d)) None df"

definition df_mid :: "distributor \<Rightarrow> ranked list \<Rightarrow> ranked list" where
  "df_mid d df = slice (Some (top_N d)) (Some (- bot_N d)) df"

text \<open>
  \<open>run\<close>. The result is \<open>None\<close> when the run does not return, \<open>Some (Inl e)\<close> when it
  stops with an error and \<open>Some (Inr result)\<close> with the final table otherwise. Filtering
  a layer on the origin column raises \<open>KeyError\<close> when the table has no such column,
  and \<open>pd.concat\<close> raises \<open>ValueError\<close> when no sub-group was distributed.
  The reordering of the columns at the end does not change any row and is left out.
\<close>

definition run ::
  "sorter \<Rightarrow> shuffler \<Rightarrow> final_sorter \<Rightarrow> distributor \<Rightarrow> frame \<Rightarrow> (error + assigned list) option" where
  "run srt shf fsrt d0 f =
     (let (d, loaded) = load_data d0 f;
          df = srt (add_rank loaded)
      in if int (length df) < top_N d + bot_N d then Some (Inl InsufficientDataError)
         else
           let layers = [df_top d df, df_mid d df, df_bot d df]
           in if has_rural d \<and> \<not> has_origin_col f then Some (Inl KeyError)
              else
                case distribute_layers srt shf (K d) (has_rural d) layers ([], 0) of
                  None \<Rightarrow> None
                | Some (assigned_list, calls) \<Rightarrow>
                    if assigned_list = [] then Some (Inl ValueError)
                    else Some (Inr (fsrt (concat assigned_list))))"

section \<open>The balance report of Analysis.py\<close>

text \<open>
  The balance check reads a class-labelled sheet. A row carries the cells the report
  looks at; the score and the origin cell are there only when the sheet has the column.
  Scores are numbers: the report is run on the result of the allocator, whose scores are.
\<close>

record report_row =
  r_class :: int
  r_gender :: string
  r_score :: real
  r_origin :: string

record report_frame =
  has_score_col :: bool
  has_rural_col :: bool
  report_rows :: "report_row list"

text \<open>
  The numbers of the report are float64 values, and three operations of the library
  compute them: \<open>Series.mean()\<close> of the scores of one class, \<open>round(x, 2)\<close>, and
  \<open>DataFrame.mean()\<close> of one column of the per-class table. Each returns a float that
  the library's arithmetic decides, in general not the exact real result, so the three
  are parameters of the model. A number of the model is the real that the float stands
  for; counts are exact.
\<close>

record float_ops =
  series_mean :: "real list \<Rightarrow> real"
  round2 :: "real \<Rightarrow> real"
  frame_mean :: "real list \<Rightarrow> real"

text \<open>
  A cell of the report: \<open>None\<close> is a value that is not there (a column the sheet does
  not have, or the NaN of a mean over nothing).
\<close>

type_synonym cell = "real option"

record stats =
  boys :: cell
  girls :: cell
  total :: cell
  avg_score :: cell
  urban_n :: cell
  rural_n :: cell

datatype label = ClassRow int | AverageRow

text \<open>
  \<open>calc_stats\<close>, the statistics of the rows of one class.
\<close>

definition count_eq :: "('a \<Rightarrow> string) \<Rightarrow> string \<Rightarrow> 'a list \<Rightarrow> real" where
  "count_eq col v x = real (length (filter (\<lambda>r. col r = v) x))"

definition calc_stats :: "float_ops \<Rightarrow> report_frame \<Rightarrow> report_row list \<Rightarrow> stats" where
  "calc_stats ops f x =
     \<lparr>boys = Some (count_eq r_gender male x),
      girls = Some (count_eq r_gender female x),
      total = Some (real (length x)),
      avg_score = (if has_score_col f
                   then Some (round2 ops (series_mean ops (map r_score x))) else None),
      urban_n = (if has_rural_col f then Some (count_eq r_origin urban x) else None),
      rural_n = (if has_rural_col f then Some (count_eq r_origin rural x) else None)\<rparr>"

text \<open>
  \<open>df.groupby(class).apply(calc_stats)\<close>: one row per class id, in ascending order of
  the class ids.
\<close>

definition class_keys :: "report_frame \<Rightarrow> int list" where
  "class_keys f = sort (remdups (map r_class (report_rows f)))"

definition class_group :: "report_frame \<Rightarrow> int \<Rightarrow> report_row list" where
  "class_group f k = filter (\<lambda>r. r_class r = k) (report_rows f)"

definition class_stats :: "float_ops \<Rightarrow> report_frame \<Rightarrow> (int \<times> stats) list" where
  "class_stats ops f = map (\<lambda>k. (k, calc_stats ops f (class_group f k))) (class_keys f)"

text \<open>
  \<open>result.mean()\<close>: the mean of every column of the per-class table, which skips the
  missing values.
\<close>

definition col_mean :: "float_ops \<Rightarrow> cell list \<Rightarrow> cell" where
  "col_mean ops cs =
     (let vs = List.map_filter id cs in if vs = [] then None else Some (frame_mean ops vs))"

definition avg_row :: "float_ops \<Rightarrow> (int \<times> stats) list \<Rightarrow> stats" where
  "avg_row ops result =
     \<lparr>boys = col_mean ops (map (\<lambda>r. boys (snd r)) result),
      girls = col_mean ops (map (\<lambda>r. girls (snd r)) result),
      total = col_mean ops (map (\<lambda>r. total (snd r)) result),
      avg_score = col_mean ops (map (\<lambda>r. avg_score (snd r)) result),
      urban_n = col_mean ops (map (\<lambda>r. urban_n (snd r)) result),
      rural_n = col_mean ops (map (\<lambda>r. rural_n (snd r)) result)\<rparr>"

text \<open>
  \<open>analyze_class_balance\<close> up to the table \<open>final_df\<close>: the per-class rows followed
  by the row labelled as the average. Printing and export round what they show and do
  not change the table.
\<close>

definition analyze_class_balance :: "float_ops \<Rightarrow> report_frame \<Rightarrow> (label \<times> stats) list" where
  "analyze_class_balance ops f =
     (let result = class_stats ops f
      in map (\<lambda>r. (ClassRow (fst r), snd r)) result @ [(AverageRow, avg_row ops result)])"

section \<open>Auxiliary definitions for the statements\<close>

text \<open>
  The class id at position \<open>i\<close> of the endless snake pattern over the shuffled ids
  \<open>ci\<close>: forward, reversed, forward, and so on.
\<close>

definition snake_at :: "int list \<Rightarrow> nat \<Rightarrow> int" where
  "snake_at ci i = (ci @ rev ci) ! (i mod (2 * length ci))"

text \<open>A concrete generator for the example runs: every even-numbered call reverses.\<close>

definition example_shuffle :: shuffler where
  "example_shuffle i xs = (if even i then rev xs else xs)"

definition row :: "string \<Rightarrow> string \<Rightarrow> string \<Rightarrow> real \<Rightarrow> int \<Rightarrow> ranked" where
  "row n g o' s r = \<lparr>name = n, gender = g, origin = o', score = s, grade_rank = r\<rparr>"

definition example_group :: "ranked list" where
  "example_group =
     [row ''a'' male urban 70 4, row ''b'' male urban 90 1, row ''c'' male urban 80 2,
      row ''d'' male urban 80 2, row ''e'' male urban 60 5]"

definition raw :: "string \<Rightarrow> string \<Rightarrow> string \<Rightarrow> real option \<Rightarrow> raw_row" where
  "raw n g o' s = \<lparr>raw_name = n, raw_gender = g, raw_origin = o', raw_score = s\<rparr>"

text \<open>A sheet without origin column; row \<open>e\<close> has no valid score.\<close>

definition example_frame :: frame where
  "example_frame =
     \<lparr>has_origin_col = False,
      rows = [raw ''a'' male [] (Some 70), raw ''b'' male [] (Some 90),
              raw ''c'' female [] (Some 80), raw ''d'' female [] (Some 80),
              raw ''e'' male [] None, raw ''g'' male [] (Some 60),
              raw ''h'' female [] (Some 50)]\<rparr>"

text \<open>A concrete last sort: stable, by class and then by descending score.\<close>

definition stable_final_sort :: final_sorter where
  "stable_final_sort xs = sort_key snd (rev (sort_key (\<lambda>a. score (fst a)) (rev xs)))"

text \<open>A sheet with a gender cell that is neither of the two literals.\<close>

definition bad_gender_frame :: frame where
  "bad_gender_frame =
     \<lparr>has_origin_col = False,
      rows = [raw ''a'' male [] (Some 70), raw ''x'' ''F'' [] (Some 90)]\<rparr>"

text \<open>A sheet of two boys.\<close>

definition two_row_frame :: frame where
  "two_row_frame =
     \<lparr>has_origin_col = False,
      rows = [raw ''b'' male [] (Some 90), raw ''a'' male [] (Some 70)]\<rparr>"

text \<open>A second generator, equal to the first one on its first six calls only.\<close>

definition other_shuffle :: shuffler where
  "other_shuffle i xs = (if i < 6 then example_shuffle i xs else xs)"

text \<open>
  Exact arithmetic, for the example below. It is not the arithmetic of the library; on
  the scores 100 and 70 of the example every float64 sum, quotient and rounding of the
  report is exact, so there it returns what the library returns.
\<close>

definition exact_mean :: "real list \<Rightarrow> real" where
  "exact_mean xs = sum_list xs / real (length xs)"

definition half_even :: "real \<Rightarrow> int" where
  "half_even x =
     (let f = \<lfloor>x\<rfloor>; d = x - of_int f
      in if d < 1 / 2 then f else if 1 / 2 < d then f + 1 else if even f then f else f + 1)"

definition exact_round2 :: "real \<Rightarrow> real" where
  "exact_round2 x = of_int (half_even (x * 100)) / 100"

definition exact_ops :: float_ops where
  "exact_ops = \<lparr>series_mean = exact_mean, round2 = exact_round2, frame_mean = exact_mean\<rparr>"

text \<open>A sheet with one student in class 1 and two students in class 2.\<close>

definition rep :: "int \<Rightarrow> string \<Rightarrow> real \<Rightarrow> report_row" where
  "rep c g s = \<lparr>r_class = c, r_gender = g, r_score = s, r_origin = []\<rparr>"

definition uneven_sheet :: report_frame where
  "uneven_sheet =
     \<lparr>has_score_col = True, has_rural_col = False,
      report_rows = [rep 1 male 100, rep 2 male 70, rep 2 female 70]\<rparr>"

section \<open>The snake loop\<close>

lemma snake_loop_result:
  assumes "ci \<noteq> []"
  shows "\<exists>m. snake_loop ci n acc = Some (acc @ concat (replicate m (ci @ rev ci)))
             \<and> n \<le> length acc + m * (2 * length ci)"
proof (induction "n - length acc" arbitrary: acc rule: less_induct)
  case less
  show ?case
  proof (cases "length acc < n")
    case False
    then have "snake_loop ci n acc = Some acc" by (subst snake_loop.simps) simp
    then show ?thesis using False by (intro exI[of _ 0]) simp
  next
    case True
    let ?acc = "acc @ ci @ rev ci"
    from assms have "length ci > 0" by simp
    with True have "n - length ?acc < n - length acc" by (simp add: diff_less_mono2)
    from less[OF this] obtain m where
      m: "snake_loop ci n ?acc = Some (?acc @ concat (replicate m (ci @ rev ci)))"
         "n \<le> length ?acc + m * (2 * length ci)" by blast
    have "snake_loop ci n acc = snake_loop ci n ?acc"
      using True by (subst snake_loop.simps) simp
    with m show ?thesis by (intro exI[of _ "Suc m"]) simp
  qed
qed

lemma nth_concat_replicate:
  "i < m * length xs \<Longrightarrow> concat (replicate m xs) ! i = xs ! (i mod length xs)"
proof (induction m arbitrary: i)
  case 0 then show ?case by simp
next
  case (Suc m)
  show ?case
  proof (cases "i < length xs")
    case True then show ?thesis by (simp add: nth_append)
  next
    case False
    then have "i - length xs < m * length xs" using Suc.prems by simp
    from Suc.IH[OF this] False show ?thesis
      by (simp add: nth_append le_mod_geq)
  qed
qed

lemma snake_loop_classes:
  assumes "ci \<noteq> []"
  shows "\<exists>pat. snake_loop ci n [] = Some pat \<and> take n pat = map (snake_at ci) [0..<n]"
proof -
  from snake_loop_result[OF assms, of n "[]"] obtain m where
    m: "snake_loop ci n [] = Some (concat (replicate m (ci @ rev ci)))"
       "n \<le> m * (2 * length ci)" by auto
  let ?pat = "concat (replicate m (ci @ rev ci))"
  have len: "length ?pat = m * (2 * length ci)" by (simp add: length_concat sum_list_replicate)
  have "take n ?pat = map (snake_at ci) [0..<n]"
  proof (rule nth_equalityI)
    show "length (take n ?pat) = length (map (snake_at ci) [0..<n])" using m(2) len by simp
  next
    fix i assume "i < length (take n ?pat)"
    then have i: "i < n" by simp
    have "m * length (ci @ rev ci) = m * (2 * length ci)" by simp
    with i m(2) have "i < m * length (ci @ rev ci)" by linarith
    from nth_concat_replicate[OF this] i show "take n ?pat ! i = map (snake_at ci) [0..<n] ! i"
      by (simp add: snake_at_def mult_2)
  qed
  with m(1) show ?thesis by blast
qed

lemma snake_at_period: "snake_at ci (i + 2 * length ci) = snake_at ci i"
  by (simp add: snake_at_def)

lemma snake_at_base: "map (snake_at ci) [0..<2 * length ci] = ci @ rev ci"
proof (rule nth_equalityI)
  show "length (map (snake_at ci) [0..<2 * length ci]) = length (ci @ rev ci)" by simp
next
  fix i assume "i < length (map (snake_at ci) [0..<2 * length ci])"
  then have "i < 2 * length ci" by simp
  then show "map (snake_at ci) [0..<2 * length ci] ! i = (ci @ rev ci) ! i"
    by (simp add: snake_at_def)
qed

lemma snake_window_mset:
  assumes "ci \<noteq> []"
  shows "mset (map (snake_at ci) [i..<i + 2 * length ci]) = mset ci + mset ci"
proof (induction i)
  case 0
  show ?case using snake_at_base[of ci] by (simp del: map_append)
next
  case (Suc i)
  let ?L = "2 * length ci"
  from assms have pos: "0 < ?L" by simp
  have a: "[i..<i + ?L] = i # [Suc i..<i + ?L]" using pos by (simp add: upt_conv_Cons)
  have b: "[Suc i..<Suc i + ?L] = [Suc i..<i + ?L] @ [i + ?L]"
    using assms by (cases ci) simp_all
  have "mset (map (snake_at ci) [Suc i..<Suc i + ?L])
        = mset (map (snake_at ci) [Suc i..<i + ?L]) + {#snake_at ci (i + ?L)#}"
    by (subst b) simp
  also have "\<dots> = mset (map (snake_at ci) [Suc i..<i + ?L]) + {#snake_at ci i#}"
    by (simp only: snake_at_period)
  also have "\<dots> = mset (map (snake_at ci) [i..<i + ?L])"
    by (subst a) simp
  finally show ?case using Suc by simp
qed

lemma window_of_classes:
  assumes "i + w \<le> n"
  shows "take w (drop i (map f [0..<n])) = map f [i..<i + w]"
proof -
  have "drop i (map f [0..<n]) = map f [i..<n]" by (simp add: drop_map)
  moreover have "take w [i..<n] = [i..<i + w]" using assms by (simp add: take_upt)
  ultimately show ?thesis by (simp add: take_map)
qed

lemma perm_upto:
  assumes "mset ci = mset [1..k]"
  shows "distinct ci" and "set ci = {1..k}" and "length ci = nat k"
proof -
  show "distinct ci" using assms by (metis mset_eq_imp_distinct_iff distinct_upto)
  show "set ci = {1..k}" using mset_eq_setD[OF assms] by simp
  show "length ci = nat k" using mset_eq_length[OF assms] by simp
qed

lemma distinct_count_le1: "distinct xs \<Longrightarrow> count_list xs c \<le> 1"
  by (induction xs) auto

lemma distinct_count_mem: "distinct xs \<Longrightarrow> c \<in> set xs \<Longrightarrow> count_list xs c = 1"
  by (induction xs) (auto simp: count_list_0_iff)

lemma snake_blocks_mset:
  assumes "ci \<noteq> []"
  shows "mset (map (snake_at ci) [0..<q * (2 * length ci)]) = repeat_mset q (mset ci + mset ci)"
proof (induction q)
  case 0 show ?case by simp
next
  case (Suc q)
  let ?L = "2 * length ci"
  have "[0..<Suc q * ?L] = [0..<q * ?L] @ [q * ?L..<q * ?L + ?L]"
    by (metis add.commute le_add2 mult_Suc upt_add_eq_append zero_le add_0)
  then have "mset (map (snake_at ci) [0..<Suc q * ?L])
      = mset (map (snake_at ci) [0..<q * ?L]) + mset (map (snake_at ci) [q * ?L..<q * ?L + ?L])"
    by simp
  also have "\<dots> = repeat_mset q (mset ci + mset ci) + (mset ci + mset ci)"
    using Suc snake_window_mset[OF assms] by simp
  finally show ?case by simp
qed

lemma snake_tail:
  assumes "r \<le> 2 * length ci"
  shows "map (snake_at ci) [q * (2 * length ci)..<q * (2 * length ci) + r] = take r (ci @ rev ci)"
proof (rule nth_equalityI)
  show "length (map (snake_at ci) [q * (2 * length ci)..<q * (2 * length ci) + r])
        = length (take r (ci @ rev ci))" using assms by simp
next
  fix j assume "j < length (map (snake_at ci) [q * (2 * length ci)..<q * (2 * length ci) + r])"
  then have j: "j < r" by simp
  with assms have "j < 2 * length ci" by simp
  then have "(q * (2 * length ci) + j) mod (2 * length ci) = j" by simp
  with j show "map (snake_at ci) [q * (2 * length ci)..<q * (2 * length ci) + r] ! j
        = take r (ci @ rev ci) ! j"
    by (simp add: snake_at_def del: take_append)
qed

lemma snake_count:
  assumes "ci \<noteq> []" "distinct ci" "c \<in> set ci"
  shows "count_list (map (snake_at ci) [0..<n]) c
         = 2 * (n div (2 * length ci)) + count_list (take (n mod (2 * length ci)) (ci @ rev ci)) c"
proof -
  let ?L = "2 * length ci"
  let ?q = "n div ?L" and ?r = "n mod ?L"
  from assms(1) have pos: "0 < ?L" by simp
  have n: "n = ?q * ?L + ?r" by (rule div_mult_mod_eq[symmetric])
  have r: "?r \<le> ?L" using pos by (simp add: less_imp_le)
  have "[0..<n] = [0..<?q * ?L] @ [?q * ?L..<?q * ?L + ?r]"
    by (metis n le_add1 upt_add_eq_append zero_le add_0)
  then have "map (snake_at ci) [0..<n]
      = map (snake_at ci) [0..<?q * ?L] @ take ?r (ci @ rev ci)"
    using snake_tail[OF r, of ?q] by (metis map_append)
  then have "count (mset (map (snake_at ci) [0..<n])) c
      = count (mset (map (snake_at ci) [0..<?q * ?L])) c + count (mset (take ?r (ci @ rev ci))) c"
    by simp
  also have "count (mset (map (snake_at ci) [0..<?q * ?L])) c = ?q * (count (mset ci) c + count (mset ci) c)"
    by (simp only: snake_blocks_mset[OF assms(1)] count_repeat_mset count_union)
  also have "count (mset ci) c = 1"
    using distinct_count_mem[OF assms(2,3)] by (simp add: count_mset)
  finally have "count (mset (map (snake_at ci) [0..<n])) c
      = ?q * (1 + 1) + count (mset (take ?r (ci @ rev ci))) c" .
  then show ?thesis unfolding count_mset by simp
qed

lemma snake_tail_count:
  assumes "distinct ci" "c \<in> set ci"
  shows "r \<le> length ci \<Longrightarrow> count_list (take r (ci @ rev ci)) c \<le> 1"
    and "length ci < r \<Longrightarrow> 1 \<le> count_list (take r (ci @ rev ci)) c
                              \<and> count_list (take r (ci @ rev ci)) c \<le> 2"
proof -
  assume "r \<le> length ci"
  then have "take r (ci @ rev ci) = take r ci" by simp
  moreover have "distinct (take r ci)" using assms(1) by simp
  ultimately show "count_list (take r (ci @ rev ci)) c \<le> 1"
    by (simp only: distinct_count_le1)
next
  assume "length ci < r"
  then have "take r (ci @ rev ci) = ci @ take (r - length ci) (rev ci)" by simp
  then have "count_list (take r (ci @ rev ci)) c
         = 1 + count_list (take (r - length ci) (rev ci)) c"
    using distinct_count_mem[OF assms] by simp
  moreover have "distinct (take (r - length ci) (rev ci))" using assms(1) by simp
  then have "count_list (take (r - length ci) (rev ci)) c \<le> 1" by (rule distinct_count_le1)
  ultimately show "1 \<le> count_list (take r (ci @ rev ci)) c
                              \<and> count_list (take r (ci @ rev ci)) c \<le> 2" by simp
qed

lemma snake_balanced:
  assumes "ci \<noteq> []" "distinct ci" "c1 \<in> set ci" "c2 \<in> set ci"
  shows "\<bar>int (count_list (map (snake_at ci) [0..<n]) c1)
          - int (count_list (map (snake_at ci) [0..<n]) c2)\<bar> \<le> 1"
proof -
  let ?r = "n mod (2 * length ci)"
  let ?t = "\<lambda>c. count_list (take ?r (ci @ rev ci)) c"
  have "\<bar>int (?t c1) - int (?t c2)\<bar> \<le> 1"
  proof (cases "?r \<le> length ci")
    case True
    from snake_tail_count(1)[OF assms(2,3) True] snake_tail_count(1)[OF assms(2,4) True]
    show ?thesis by linarith
  next
    case False
    then have "length ci < ?r" by simp
    from snake_tail_count(2)[OF assms(2,3) this] snake_tail_count(2)[OF assms(2,4) this]
    show ?thesis by linarith
  qed
  then show ?thesis
    by (simp only: snake_count[OF assms(1,2,3)] snake_count[OF assms(1,2,4)])
qed


section \<open>Distributing one sub-group\<close>

lemma sorts_desc_length: "sorts_desc srt \<Longrightarrow> length (srt xs) = length xs"
  unfolding sorts_desc_def by (metis size_mset)

lemma sorts_desc_mset: "sorts_desc srt \<Longrightarrow> mset (srt xs) = mset xs"
  unfolding sorts_desc_def by blast

lemma shuffled_ids:
  assumes "is_shuffle shf" "1 \<le> k"
  shows "shf i [1..k] \<noteq> []" and "distinct (shf i [1..k])"
    and "set (shf i [1..k]) = {1..k}" and "length (shf i [1..k]) = nat k"
proof -
  from assms(1) have m: "mset (shf i [1..k]) = mset [1..k]" by (simp add: is_shuffle_def)
  from perm_upto[OF m] show "distinct (shf i [1..k])" "set (shf i [1..k]) = {1..k}"
    "length (shf i [1..k]) = nat k" by blast+
  then show "shf i [1..k] \<noteq> []" using assms(2) by auto
qed

lemma distribute_sub_group_eq:
  assumes "1 \<le> k" "is_shuffle shf" "sorts_desc srt"
  shows "distribute_sub_group srt shf k sub st =
     Some (if sub = [] then st
           else (fst st @ [zip (srt sub) (map (snake_at (shf (snd st) [1..k])) [0..<length sub])],
                 Suc (snd st)))"
proof (cases "sub = []")
  case True
  then show ?thesis by (simp add: distribute_sub_group_def)
next
  case False
  let ?ci = "shf (snd st) [1..k]"
  from shuffled_ids(1)[OF assms(2,1)] have "?ci \<noteq> []" .
  from snake_loop_classes[OF this, of "length sub"] obtain pat where
    "snake_loop ?ci (length sub) [] = Some pat"
    "take (length sub) pat = map (snake_at ?ci) [0..<length sub]" by blast
  with False show ?thesis
    by (simp add: distribute_sub_group_def Let_def sorts_desc_length[OF assms(3)])
qed

lemma distribute_sub_group_out:
  assumes "1 \<le> k" "is_shuffle shf" "sorts_desc srt"
  shows "\<exists>out. distribute_sub_group srt shf k sub (al, n) = Some (al @ out, n + length out)
           \<and> map fst (concat out) = srt sub
           \<and> map snd (concat out) = map (snake_at (shf n [1..k])) [0..<length sub]"
proof (cases "sub = []")
  case True
  have "srt [] = []" using sorts_desc_length[OF assms(3), of "[]"] by simp
  with True show ?thesis
    by (intro exI[of _ "[]"]) (simp add: distribute_sub_group_eq[OF assms])
next
  case False
  let ?f = "zip (srt sub) (map (snake_at (shf n [1..k])) [0..<length sub])"
  have "map fst ?f = srt sub" "map snd ?f = map (snake_at (shf n [1..k])) [0..<length sub]"
    by (simp_all add: sorts_desc_length[OF assms(3)])
  with False show ?thesis
    by (intro exI[of _ "[?f]"]) (simp add: distribute_sub_group_eq[OF assms])
qed


lemma snake_at_fold_high:
  assumes "ci \<noteq> []"
  shows "snake_at ci (2 * j * length ci + length ci - 1) = last ci"
    and "snake_at ci (2 * j * length ci + length ci) = last ci"
proof -
  let ?L = "length ci"
  from assms have L: "0 < ?L" by simp
  then obtain l where l: "?L = Suc l" by (cases "?L") auto
  have "2 * j * ?L + ?L - 1 = j * (2 * ?L) + (?L - 1)" by (simp add: l)
  moreover have "?L - 1 < 2 * ?L" by (simp add: l)
  ultimately have "(2 * j * ?L + ?L - 1) mod (2 * ?L) = ?L - 1"
    by (metis mod_mult_self3 mod_less)
  then show "snake_at ci (2 * j * ?L + ?L - 1) = last ci"
    using L assms by (simp add: snake_at_def nth_append last_conv_nth)
  have "2 * j * ?L + ?L = j * (2 * ?L) + ?L" by simp
  moreover have "?L < 2 * ?L" by (simp add: l)
  ultimately have "(2 * j * ?L + ?L) mod (2 * ?L) = ?L"
    by (metis mod_mult_self3 mod_less)
  then show "snake_at ci (2 * j * ?L + ?L) = last ci"
    using L assms by (simp add: snake_at_def nth_append rev_nth last_conv_nth)
qed

lemma snake_at_fold_low:
  assumes "ci \<noteq> []" "1 \<le> j"
  shows "snake_at ci (2 * j * length ci - 1) = hd ci"
    and "snake_at ci (2 * j * length ci) = hd ci"
proof -
  let ?L = "length ci"
  from assms have L: "0 < ?L" by simp
  then obtain l where l: "?L = Suc l" by (cases "?L") auto
  from assms(2) obtain j' where j: "j = Suc j'" by (cases j) auto
  have "2 * j * ?L - 1 = j' * (2 * ?L) + (2 * ?L - 1)" by (simp add: l j)
  moreover have "2 * ?L - 1 < 2 * ?L" by (simp add: l)
  ultimately have "(2 * j * ?L - 1) mod (2 * ?L) = 2 * ?L - 1"
    by (metis mod_mult_self3 mod_less)
  moreover have "2 * ?L - 1 - ?L = ?L - 1" by simp
  ultimately show "snake_at ci (2 * j * ?L - 1) = hd ci"
    using L assms(1) by (simp add: snake_at_def nth_append rev_nth hd_conv_nth)
  have "(2 * j * ?L) mod (2 * ?L) = 0" by simp
  then show "snake_at ci (2 * j * ?L) = hd ci"
    using L assms(1) by (simp add: snake_at_def nth_append hd_conv_nth)
qed


lemma is_shuffle_example_shuffle: "is_shuffle example_shuffle"
  by (simp add: is_shuffle_def example_shuffle_def)

lemma sorts_desc_stable_sort_desc: "sorts_desc stable_sort_desc"
proof -
  have "sorted_wrt (\<lambda>a b. score b \<le> score a) (rev (sort_key score ys))" for ys :: "ranked list"
    using sorted_sort_key[of score ys] by (simp add: sorted_wrt_rev sorted_map)
  then show ?thesis by (simp add: sorts_desc_def stable_sort_desc_def)
qed

lemma example_distribute:
  "distribute_sub_group stable_sort_desc example_shuffle 2 example_group ([], 0)
   = Some ([[(row ''b'' male urban 90 1, 2), (row ''c'' male urban 80 2, 1),
             (row ''d'' male urban 80 2, 1), (row ''a'' male urban 70 4, 2),
             (row ''e'' male urban 60 5, 2)]], 1)"
proof -
  have "snake_loop [2, 1] (length example_group) [] = Some [2, 1, 1, 2, 2, 1, 1, 2]"
    by (simp add: snake_loop.simps example_group_def)
  then show ?thesis
    by (simp add: distribute_sub_group_def example_group_def stable_sort_desc_def
        example_shuffle_def row_def upto.simps Let_def)
qed

text \<open>
  Claim C1. For every sub-group and every class count \<open>k \<ge> 1\<close>, the distributor
  returns, gives every row of the sub-group a class, and the numbers of rows that any two
  class ids of \<open>1..k\<close> receive differ by at most one, whatever the length of the
  sub-group.
\<close>

theorem snake_counts_differ_by_at_most_one:
  assumes "1 \<le> k" and "is_shuffle shf" and "sorts_desc srt"
    and "c1 \<in> {1..k}" and "c2 \<in> {1..k}"
  shows "\<exists>out. distribute_sub_group srt shf k sub (al, n) = Some (al @ out, n + length out)
           \<and> mset (map fst (concat out)) = mset sub
           \<and> \<bar>int (count_list (map snd (concat out)) c1)
               - int (count_list (map snd (concat out)) c2)\<bar> \<le> 1"
proof -
  from distribute_sub_group_out[OF assms(1-3)] obtain out where
    out: "distribute_sub_group srt shf k sub (al, n) = Some (al @ out, n + length out)"
         "map fst (concat out) = srt sub"
         "map snd (concat out) = map (snake_at (shf n [1..k])) [0..<length sub]" by blast
  note ids = shuffled_ids[OF assms(2,1), of n]
  have "\<bar>int (count_list (map snd (concat out)) c1)
               - int (count_list (map snd (concat out)) c2)\<bar> \<le> 1"
    unfolding out(3) using assms(4,5) ids by (intro snake_balanced) simp_all
  moreover have "mset (map fst (concat out)) = mset sub"
    by (simp only: out(2) sorts_desc_mset[OF assms(3)])
  ultimately show ?thesis using out(1) by blast
qed

theorem snake_counts_differ_by_at_most_one_witness:
  "(1::int) \<le> 2 \<and> is_shuffle example_shuffle \<and> sorts_desc stable_sort_desc
   \<and> (1::int) \<in> {1..2} \<and> (2::int) \<in> {1..2}
   \<and> (\<exists>out. distribute_sub_group stable_sort_desc example_shuffle 2 example_group ([], 0)
               = Some ([] @ out, 0 + length out)
           \<and> mset (map fst (concat out)) = mset example_group
           \<and> \<bar>int (count_list (map snd (concat out)) 1)
               - int (count_list (map snd (concat out)) 2)\<bar> \<le> 1)"
  using snake_counts_differ_by_at_most_one[of 2 example_shuffle stable_sort_desc 1 2
      example_group "[]" 0]
    is_shuffle_example_shuffle sorts_desc_stable_sort_desc
  by simp

text \<open>
  Claim C2. In the class sequence of a distributed sub-group, every window of \<open>2k\<close>
  consecutive positions that lies within the sub-group holds each class id of \<open>1..k\<close>
  exactly twice.
\<close>

theorem snake_window_has_each_class_twice:
  assumes "1 \<le> k" and "is_shuffle shf" and "sorts_desc srt"
    and "c \<in> {1..k}" and "i + 2 * nat k \<le> length sub"
  shows "\<exists>out. distribute_sub_group srt shf k sub (al, n) = Some (al @ out, n + length out)
           \<and> length (concat out) = length sub
           \<and> count_list (take (2 * nat k) (drop i (map snd (concat out)))) c = 2"
proof -
  from distribute_sub_group_out[OF assms(1-3)] obtain out where
    out: "distribute_sub_group srt shf k sub (al, n) = Some (al @ out, n + length out)"
         "map fst (concat out) = srt sub"
         "map snd (concat out) = map (snake_at (shf n [1..k])) [0..<length sub]" by blast
  let ?ci = "shf n [1..k]"
  note ids = shuffled_ids[OF assms(2,1), of n]
  from out(3) have len: "length (concat out) = length sub"
    by (metis length_map length_upt diff_zero)
  have w: "i + 2 * length ?ci \<le> length sub" using assms(5) ids(4) by simp
  have "take (2 * nat k) (drop i (map snd (concat out)))
        = map (snake_at ?ci) [i..<i + 2 * length ?ci]"
    unfolding out(3) using window_of_classes[OF w] ids(4) by simp
  then have "count (mset (take (2 * nat k) (drop i (map snd (concat out))))) c
        = count (mset ?ci) c + count (mset ?ci) c"
    by (simp only: snake_window_mset[OF ids(1)] count_union)
  moreover have "count_list ?ci c = 1"
    using distinct_count_mem[OF ids(2)] ids(3) assms(4) by simp
  ultimately have "count_list (take (2 * nat k) (drop i (map snd (concat out)))) c = 2"
    by (simp only: count_mset)
  with out(1) len show ?thesis by blast
qed

theorem snake_window_has_each_class_twice_witness:
  "(1::int) \<le> 2 \<and> is_shuffle example_shuffle \<and> sorts_desc stable_sort_desc
   \<and> (1::int) \<in> {1..2} \<and> 1 + 2 * nat 2 \<le> length example_group
   \<and> (\<exists>out. distribute_sub_group stable_sort_desc example_shuffle 2 example_group ([], 0)
               = Some ([] @ out, 0 + length out)
           \<and> length (concat out) = length example_group
           \<and> count_list (take (2 * nat 2) (drop 1 (map snd (concat out)))) 1 = 2)"
  using snake_window_has_each_class_twice[of 2 example_shuffle stable_sort_desc 1 1
      example_group "[]" 0]
    is_shuffle_example_shuffle sorts_desc_stable_sort_desc
  by (simp add: example_group_def)

text \<open>
  Claim C9. At every fold of the snake the two neighbouring positions get the same
  class: positions \<open>2jk + k - 1\<close> and \<open>2jk + k\<close> both get the last id of the shuffled
  list, and for \<open>j \<ge> 1\<close> positions \<open>2jk - 1\<close> and \<open>2jk\<close> both get its first id.
\<close>

theorem snake_fold_repeats_class:
  assumes "1 \<le> k" and "is_shuffle shf" and "sorts_desc srt"
  shows "\<exists>out. distribute_sub_group srt shf k sub (al, n) = Some (al @ out, n + length out)
           \<and> length (concat out) = length sub
           \<and> (\<forall>j. 2 * j * nat k + nat k < length sub \<longrightarrow>
                  map snd (concat out) ! (2 * j * nat k + nat k - 1) = last (shf n [1..k])
                \<and> map snd (concat out) ! (2 * j * nat k + nat k) = last (shf n [1..k]))
           \<and> (\<forall>j. 1 \<le> j \<and> 2 * j * nat k < length sub \<longrightarrow>
                  map snd (concat out) ! (2 * j * nat k - 1) = hd (shf n [1..k])
                \<and> map snd (concat out) ! (2 * j * nat k) = hd (shf n [1..k]))"
proof -
  from distribute_sub_group_out[OF assms(1-3)] obtain out where
    out: "distribute_sub_group srt shf k sub (al, n) = Some (al @ out, n + length out)"
         "map fst (concat out) = srt sub"
         "map snd (concat out) = map (snake_at (shf n [1..k])) [0..<length sub]" by blast
  let ?ci = "shf n [1..k]"
  note ids = shuffled_ids[OF assms(2,1), of n]
  from out(3) have len: "length (concat out) = length sub"
    by (metis length_map length_upt diff_zero)
  have hi: "map snd (concat out) ! (2 * j * nat k + nat k - 1) = last ?ci
          \<and> map snd (concat out) ! (2 * j * nat k + nat k) = last ?ci"
    if "2 * j * nat k + nat k < length sub" for j
  proof -
    from that have "2 * j * nat k + nat k - 1 < length sub" by simp
    with that show ?thesis
      unfolding out(3) using snake_at_fold_high[OF ids(1), of j] ids(4) by simp
  qed
  have lo: "map snd (concat out) ! (2 * j * nat k - 1) = hd ?ci
          \<and> map snd (concat out) ! (2 * j * nat k) = hd ?ci"
    if "1 \<le> j" "2 * j * nat k < length sub" for j
  proof -
    from that have "2 * j * nat k - 1 < length sub" by simp
    with that show ?thesis
      unfolding out(3) using snake_at_fold_low[OF ids(1) that(1)] ids(4) by simp
  qed
  from out(1) len hi lo show ?thesis by blast
qed

theorem snake_fold_repeats_class_witness:
  "(1::int) \<le> 2 \<and> is_shuffle example_shuffle \<and> sorts_desc stable_sort_desc
   \<and> example_shuffle 0 [1..2] = [2, 1]
   \<and> map snd (concat (fst (the (distribute_sub_group stable_sort_desc example_shuffle 2
                                   example_group ([], 0)))))
       = [2, 1, 1, 2, 2]
   \<and> (\<exists>out. distribute_sub_group stable_sort_desc example_shuffle 2 example_group ([], 0)
               = Some ([] @ out, 0 + length out)
           \<and> length (concat out) = length example_group
           \<and> map snd (concat out) ! (2 * 0 * nat 2 + nat 2 - 1) = last (example_shuffle 0 [1..2])
           \<and> map snd (concat out) ! (2 * 0 * nat 2 + nat 2) = last (example_shuffle 0 [1..2])
           \<and> map snd (concat out) ! (2 * 1 * nat 2 - 1) = hd (example_shuffle 0 [1..2])
           \<and> map snd (concat out) ! (2 * 1 * nat 2) = hd (example_shuffle 0 [1..2]))"
proof -
  from snake_fold_repeats_class[of 2 example_shuffle stable_sort_desc example_group "[]" 0]
    is_shuffle_example_shuffle sorts_desc_stable_sort_desc
  obtain out where
    out: "distribute_sub_group stable_sort_desc example_shuffle 2 example_group ([], 0)
            = Some ([] @ out, 0 + length out)"
      "length (concat out) = length example_group"
      "\<forall>j. 2 * j * nat 2 + nat 2 < length example_group \<longrightarrow>
            map snd (concat out) ! (2 * j * nat 2 + nat 2 - 1) = last (example_shuffle 0 [1..2])
          \<and> map snd (concat out) ! (2 * j * nat 2 + nat 2) = last (example_shuffle 0 [1..2])"
      "\<forall>j. 1 \<le> j \<and> 2 * j * nat 2 < length example_group \<longrightarrow>
            map snd (concat out) ! (2 * j * nat 2 - 1) = hd (example_shuffle 0 [1..2])
          \<and> map snd (concat out) ! (2 * j * nat 2) = hd (example_shuffle 0 [1..2])"
    by auto
  have len: "length example_group = 5" by (simp add: example_group_def)
  from out(3)[rule_format, of 0] len
  have hi: "map snd (concat out) ! (2 * 0 * nat 2 + nat 2 - 1) = last (example_shuffle 0 [1..2])"
    "map snd (concat out) ! (2 * 0 * nat 2 + nat 2) = last (example_shuffle 0 [1..2])"
    by simp_all
  from out(4)[rule_format, of 1] len
  have lo: "map snd (concat out) ! (2 * 1 * nat 2 - 1) = hd (example_shuffle 0 [1..2])"
    "map snd (concat out) ! (2 * 1 * nat 2) = hd (example_shuffle 0 [1..2])"
    by simp_all
  have "example_shuffle 0 [1..2] = [2, 1]" by (simp add: example_shuffle_def upto.simps)
  moreover have "map snd (concat (fst (the (distribute_sub_group stable_sort_desc
            example_shuffle 2 example_group ([], 0))))) = [2, 1, 1, 2, 2]"
    by (simp add: example_distribute)
  moreover have "\<exists>out. distribute_sub_group stable_sort_desc example_shuffle 2
               example_group ([], 0) = Some ([] @ out, 0 + length out)
           \<and> length (concat out) = length example_group
           \<and> map snd (concat out) ! (2 * 0 * nat 2 + nat 2 - 1) = last (example_shuffle 0 [1..2])
           \<and> map snd (concat out) ! (2 * 0 * nat 2 + nat 2) = last (example_shuffle 0 [1..2])
           \<and> map snd (concat out) ! (2 * 1 * nat 2 - 1) = hd (example_shuffle 0 [1..2])
           \<and> map snd (concat out) ! (2 * 1 * nat 2) = hd (example_shuffle 0 [1..2])"
    using out(1,2) hi lo by blast
  moreover have "(1::int) \<le> 2" by simp
  ultimately show ?thesis
    using is_shuffle_example_shuffle sorts_desc_stable_sort_desc by blast
qed

section \<open>Grade rank\<close>

lemma first_pos_sorted_desc:
  fixes v :: "'a::linorder"
  assumes "sorted_wrt (\<lambda>a b. b \<le> a) ys" "v \<in> set ys"
  shows "first_pos v ys = length (filter (\<lambda>x. v < x) ys)"
  using assms
proof (induction ys)
  case Nil
  then show ?case by simp
next
  case (Cons y ys)
  show ?case
  proof (cases "v = y")
    case True
    with Cons.prems(1) have "\<forall>x\<in>set (y # ys). \<not> v < x" by auto
    then have "filter (\<lambda>x. v < x) (y # ys) = []" by (simp add: filter_empty_conv)
    with True show ?thesis by simp
  next
    case False
    with Cons.prems have v: "v \<in> set ys" and "v \<le> y" by auto
    with False have "v < y" by simp
    moreover from Cons.prems(1) have "sorted_wrt (\<lambda>a b. b \<le> a) ys" by simp
    ultimately show ?thesis using Cons.IH v False by simp
  qed
qed

lemma length_filter_mset:
  "mset xs = mset ys \<Longrightarrow> length (filter P xs) = length (filter P ys)"
  by (metis mset_filter size_mset)

lemma rank_min_desc_count:
  assumes "v \<in> set vals"
  shows "rank_min_desc vals v = 1 + int (length (filter (\<lambda>x. v < x) vals))"
proof -
  have "sorted_wrt (\<lambda>a b. b \<le> a) (rev (sort vals))"
    by (simp add: sorted_wrt_rev)
  moreover have "v \<in> set (rev (sort vals))" using assms by simp
  ultimately have "first_pos v (rev (sort vals))
      = length (filter (\<lambda>x. v < x) (rev (sort vals)))"
    by (rule first_pos_sorted_desc)
  also have "\<dots> = length (filter (\<lambda>x. v < x) vals)"
    by (rule length_filter_mset) simp
  finally show ?thesis by (simp add: rank_min_desc_def)
qed

lemma add_rank_row:
  assumes "r \<in> set (add_rank df)"
  shows "grade_rank r = 1 + int (length (filter (\<lambda>s. score r < score s) df))"
    and "\<exists>s \<in> set df. score s = score r"
proof -
  from assms obtain s where s: "s \<in> set df"
    and r: "r = \<lparr>name = name s, gender = gender s, origin = origin s, score = score s,
               grade_rank = rank_min_desc (map score df) (score s)\<rparr>"
    by (auto simp: add_rank_def)
  from s have "score s \<in> set (map score df)" by simp
  from rank_min_desc_count[OF this]
  have "rank_min_desc (map score df) (score s)
        = 1 + int (length (filter (\<lambda>x. score s < x) (map score df)))" .
  also have "length (filter (\<lambda>x. score s < x) (map score df))
        = length (filter (\<lambda>t. score s < score t) df)"
    by (simp add: filter_map comp_def)
  finally show "grade_rank r = 1 + int (length (filter (\<lambda>s. score r < score s) df))"
    by (simp add: r)
  from s r show "\<exists>s \<in> set df. score s = score r" by auto
qed

lemma length_filter_strict:
  assumes "\<And>x. x \<in> set xs \<Longrightarrow> P x \<Longrightarrow> Q x" "y \<in> set xs" "Q y" "\<not> P y"
  shows "length (filter P xs) < length (filter Q xs)"
proof -
  have "filter P xs = filter P (filter Q xs)"
    using assms(1) by (induction xs) auto
  moreover have "y \<in> set (filter Q xs)" using assms(2,3) by simp
  ultimately show ?thesis using assms(4)
    by (metis length_filter_less)
qed

lemma example_ranked:
  "add_rank (snd (load_data (init 2 1 1) example_frame))
   = [row ''a'' male [] 70 4, row ''b'' male [] 90 1, row ''c'' female [] 80 2,
      row ''d'' female [] 80 2, row ''g'' male [] 60 5, row ''h'' female [] 50 6]"
  by (simp add: add_rank_def load_data_def clean_def example_frame_def raw_def row_def
      List.map_filter_simps rank_min_desc_def init_def)

text \<open>
  Claim C5. The grade rank is computed over the whole cleaned roster, before any tier is
  cut. The rank of a row is one plus the number of students of the roster with a strictly
  higher score. Hence rows of equal score have the same rank, a strictly higher score has
  a strictly smaller rank, no rank is below 1 and some row has rank 1.
\<close>

theorem grade_rank_counts_strictly_higher_scores:
  assumes "r \<in> set (add_rank (snd (load_data d f)))"
    and "r' \<in> set (add_rank (snd (load_data d f)))"
  shows "grade_rank r
           = 1 + int (length (filter (\<lambda>s. score r < score s) (snd (load_data d f))))
       \<and> (score r = score r' \<longrightarrow> grade_rank r = grade_rank r')
       \<and> (score r' < score r \<longrightarrow> grade_rank r < grade_rank r')
       \<and> 1 \<le> grade_rank r
       \<and> (\<exists>m \<in> set (add_rank (snd (load_data d f))). grade_rank m = 1)"
proof -
  let ?df = "snd (load_data d f)"
  note a = add_rank_row[OF assms(1)] and b = add_rank_row[OF assms(2)]
  have eq: "score r = score r' \<Longrightarrow> grade_rank r = grade_rank r'"
    using a(1) b(1) by simp
  have lt: "grade_rank r < grade_rank r'" if "score r' < score r"
  proof -
    from a(2) obtain s where s: "s \<in> set ?df" "score s = score r" by blast
    have "length (filter (\<lambda>t. score r < score t) ?df)
        < length (filter (\<lambda>t. score r' < score t) ?df)"
      using that s by (intro length_filter_strict[where y = s]) auto
    then show ?thesis using a(1) b(1) by simp
  qed
  have "\<exists>m \<in> set (add_rank ?df). grade_rank m = 1"
  proof -
    from a(2) have ne: "map score ?df \<noteq> []" by auto
    define top where "top = Max (set (map score ?df))"
    have "top \<in> set (map score ?df)" unfolding top_def using ne by (intro Max_in) simp_all
    then obtain s where s: "s \<in> set ?df" "score s = top" by auto
    let ?m = "\<lparr>name = name s, gender = gender s, origin = origin s, score = score s,
               grade_rank = rank_min_desc (map score ?df) (score s)\<rparr>"
    have m: "?m \<in> set (add_rank ?df)" using s(1) by (auto simp: add_rank_def)
    have "\<forall>t \<in> set ?df. \<not> score ?m < score t"
      using s(2) unfolding top_def by (auto simp: not_less)
    then have "filter (\<lambda>t. score ?m < score t) ?df = []"
      by (simp add: filter_empty_conv)
    with add_rank_row(1)[OF m] have "grade_rank ?m = 1" by simp
    with m show ?thesis by blast
  qed
  with a(1) eq lt show ?thesis by simp
qed

theorem grade_rank_counts_strictly_higher_scores_witness:
  "row ''c'' female [] 80 2 \<in> set (add_rank (snd (load_data (init 2 1 1) example_frame)))
   \<and> row ''d'' female [] 80 2 \<in> set (add_rank (snd (load_data (init 2 1 1) example_frame)))
   \<and> row ''b'' male [] 90 1 \<in> set (add_rank (snd (load_data (init 2 1 1) example_frame)))
   \<and> grade_rank (row ''c'' female [] 80 2)
       = 1 + int (length (filter (\<lambda>s. score (row ''c'' female [] 80 2) < score s)
                           (snd (load_data (init 2 1 1) example_frame))))
   \<and> grade_rank (row ''c'' female [] 80 2) = grade_rank (row ''d'' female [] 80 2)
   \<and> grade_rank (row ''b'' male [] 90 1) < grade_rank (row ''c'' female [] 80 2)
   \<and> 1 \<le> grade_rank (row ''c'' female [] 80 2)
   \<and> (\<exists>m \<in> set (add_rank (snd (load_data (init 2 1 1) example_frame))). grade_rank m = 1)"
proof -
  have c: "row ''c'' female [] 80 2
           \<in> set (add_rank (snd (load_data (init 2 1 1) example_frame)))"
    and d: "row ''d'' female [] 80 2
           \<in> set (add_rank (snd (load_data (init 2 1 1) example_frame)))"
    and b: "row ''b'' male [] 90 1
           \<in> set (add_rank (snd (load_data (init 2 1 1) example_frame)))"
    by (simp_all add: example_ranked)
  have "score (row ''c'' female [] 80 2) = score (row ''d'' female [] 80 2)"
    and "score (row ''c'' female [] 80 2) < score (row ''b'' male [] 90 1)"
    by (simp_all add: row_def)
  with grade_rank_counts_strictly_higher_scores[OF c d]
    grade_rank_counts_strictly_higher_scores[OF b c] c d b
  show ?thesis by blast
qed

section \<open>Tiers\<close>

lemma tiers_partition:
  assumes "0 \<le> top_N d" "0 < bot_N d" "top_N d + bot_N d \<le> int (length df)"
  shows "df_top d df @ df_mid d df @ df_bot d df = df"
proof -
  let ?n = "length df"
  let ?t = "nat (top_N d)" and ?b = "nat (bot_N d)"
  have t: "norm_idx (top_N d) ?n = ?t" using assms by (simp add: norm_idx_def)
  have b: "norm_idx (- bot_N d) ?n = ?n - ?b" using assms by (auto simp: norm_idx_def)
  have le: "?t \<le> ?n - ?b" using assms by linarith
  have top: "df_top d df = take ?t df" by (simp add: df_top_def slice_def t)
  have mid: "df_mid d df = take (?n - ?b - ?t) (drop ?t df)"
    by (simp add: df_mid_def slice_def t b Let_def)
  have bot: "df_bot d df = drop (?n - ?b) df" by (simp add: df_bot_def slice_def b)
  have "take (?n - ?b - ?t) (drop ?t df) @ drop (?n - ?b) df = drop ?t df"
  proof -
    have "?n - ?b - ?t + ?t = ?n - ?b" using le by simp
    then have "drop (?n - ?b) df = drop (?n - ?b - ?t) (drop ?t df)"
      by (simp only: drop_drop)
    then show ?thesis by (simp only: append_take_drop_id)
  qed
  then show ?thesis by (simp only: top mid bot append_take_drop_id)
qed

lemma mid_empty_at_exact_size:
  assumes "int (length df) = top_N d + bot_N d"
  shows "df_mid d df = []"
  using assms by (auto simp: df_mid_def slice_def norm_idx_def Let_def)

text \<open>
  Claim C4. The claim wants the three tiers disjoint and exhaustive for every
  configuration. With a bottom quota of zero the slice \<open>df.iloc[-0:]\<close> is the whole
  table: for one class, a top quota of 1, a bottom quota of 0 and a roster of two rows,
  the bottom tier holds both rows, the first of them is in the top tier as well, and the
  middle tier is empty although one row lies between the top and the bottom quota.
\<close>

theorem tiers_overlap_at_zero_bottom_quota:
  "int (length [row ''b'' male [] 90 1, row ''a'' male [] 70 2])
     \<ge> top_N (init 1 1 0) + bot_N (init 1 1 0)
   \<and> df_top (init 1 1 0) [row ''b'' male [] 90 1, row ''a'' male [] 70 2]
       = [row ''b'' male [] 90 1]
   \<and> df_mid (init 1 1 0) [row ''b'' male [] 90 1, row ''a'' male [] 70 2] = []
   \<and> df_bot (init 1 1 0) [row ''b'' male [] 90 1, row ''a'' male [] 70 2]
       = [row ''b'' male [] 90 1, row ''a'' male [] 70 2]"
  by (simp add: df_top_def df_mid_def df_bot_def slice_def norm_idx_def init_def)


section \<open>The whole run\<close>

lemma male_neq_female: "male \<noteq> female" by (simp add: male_def female_def)
lemma urban_neq_rural: "urban \<noteq> rural" by (simp add: urban_def rural_def)

lemma groups_partition:
  assumes "\<forall>r \<in> set layer. gender r = male \<or> gender r = female"
    and "with_rural \<longrightarrow> (\<forall>r \<in> set layer. origin r = urban \<or> origin r = rural)"
  shows "mset (concat (groups_of with_rural layer)) = mset layer"
  using assms
proof (induction layer)
  case Nil
  show ?case by (simp add: groups_of_def)
next
  case (Cons r layer)
  then have IH: "mset (concat (groups_of with_rural layer)) = mset layer" by simp
  from Cons.prems have g: "gender r = male \<or> gender r = female"
    and o: "with_rural \<Longrightarrow> origin r = urban \<or> origin r = rural" by auto
  show ?case
  proof (cases with_rural)
    case True
    with IH g o[OF True] show ?thesis
      using male_neq_female urban_neq_rural by (auto simp: groups_of_def)
  next
    case False
    with IH g show ?thesis using male_neq_female by (auto simp: groups_of_def)
  qed
qed

lemma snake_at_in_set: "ci \<noteq> [] \<Longrightarrow> snake_at ci i \<in> set ci"
proof -
  assume "ci \<noteq> []"
  then have "0 < 2 * length ci" by simp
  then have "i mod (2 * length ci) < 2 * length ci" by (rule mod_less_divisor)
  then have "i mod (2 * length ci) < length (ci @ rev ci)" by simp
  then have "(ci @ rev ci) ! (i mod (2 * length ci)) \<in> set (ci @ rev ci)" by (rule nth_mem)
  then show ?thesis by (simp add: snake_at_def)
qed

lemma distribute_sub_group_classes:
  assumes "1 \<le> k" "is_shuffle shf" "sorts_desc srt"
  shows "\<exists>out. distribute_sub_group srt shf k sub (al, n) = Some (al @ out, n + length out)
           \<and> mset (map fst (concat out)) = mset sub
           \<and> set (map snd (concat out)) \<subseteq> {1..k}"
proof -
  from distribute_sub_group_out[OF assms] obtain out where
    out: "distribute_sub_group srt shf k sub (al, n) = Some (al @ out, n + length out)"
         "map fst (concat out) = srt sub"
         "map snd (concat out) = map (snake_at (shf n [1..k])) [0..<length sub]" by blast
  note ids = shuffled_ids[OF assms(2,1), of n]
  have "set (map snd (concat out)) \<subseteq> {1..k}"
    unfolding out(3) using snake_at_in_set[OF ids(1)] ids(3) by auto
  moreover have "mset (map fst (concat out)) = mset sub"
    by (simp only: out(2) sorts_desc_mset[OF assms(3)])
  ultimately show ?thesis using out(1) by blast
qed

lemma distribute_groups_out:
  assumes "1 \<le> k" "is_shuffle shf" "sorts_desc srt"
  shows "\<exists>out. distribute_groups srt shf k gs (al, n) = Some (al @ out, n + length out)
           \<and> mset (map fst (concat out)) = mset (concat gs)
           \<and> set (map snd (concat out)) \<subseteq> {1..k}"
proof (induction gs arbitrary: al n)
  case Nil
  show ?case by (intro exI[of _ "[]"]) simp
next
  case (Cons g gs)
  from distribute_sub_group_classes[OF assms, of g al n] obtain o1 where
    o1: "distribute_sub_group srt shf k g (al, n) = Some (al @ o1, n + length o1)"
        "mset (map fst (concat o1)) = mset g" "set (map snd (concat o1)) \<subseteq> {1..k}" by blast
  from Cons.IH[of "al @ o1" "n + length o1"] obtain o2 where
    o2: "distribute_groups srt shf k gs (al @ o1, n + length o1)
           = Some ((al @ o1) @ o2, (n + length o1) + length o2)"
        "mset (map fst (concat o2)) = mset (concat gs)"
        "set (map snd (concat o2)) \<subseteq> {1..k}" by blast
  show ?case
  proof (intro exI[of _ "o1 @ o2"] conjI)
    show "distribute_groups srt shf k (g # gs) (al, n)
          = Some (al @ o1 @ o2, n + length (o1 @ o2))"
      using o1(1) o2(1) by (simp add: add.assoc)
    show "mset (map fst (concat (o1 @ o2))) = mset (concat (g # gs))"
      using o1(2) o2(2) by simp
    show "set (map snd (concat (o1 @ o2))) \<subseteq> {1..k}"
      using o1(3) o2(3) by simp
  qed
qed

lemma distribute_layers_out:
  assumes "1 \<le> k" "is_shuffle shf" "sorts_desc srt"
  shows "\<exists>out. distribute_layers srt shf k wr ls (al, n) = Some (al @ out, n + length out)
           \<and> mset (map fst (concat out)) = mset (concat (concat (map (groups_of wr) ls)))
           \<and> set (map snd (concat out)) \<subseteq> {1..k}"
proof (induction ls arbitrary: al n)
  case Nil
  show ?case by (intro exI[of _ "[]"]) simp
next
  case (Cons l ls)
  from distribute_groups_out[OF assms, of "groups_of wr l" al n] obtain o1 where
    o1: "distribute_groups srt shf k (groups_of wr l) (al, n) = Some (al @ o1, n + length o1)"
        "mset (map fst (concat o1)) = mset (concat (groups_of wr l))"
        "set (map snd (concat o1)) \<subseteq> {1..k}" by blast
  from Cons.IH[of "al @ o1" "n + length o1"] obtain o2 where
    o2: "distribute_layers srt shf k wr ls (al @ o1, n + length o1)
           = Some ((al @ o1) @ o2, (n + length o1) + length o2)"
        "mset (map fst (concat o2)) = mset (concat (concat (map (groups_of wr) ls)))"
        "set (map snd (concat o2)) \<subseteq> {1..k}" by blast
  show ?case
  proof (intro exI[of _ "o1 @ o2"] conjI)
    show "distribute_layers srt shf k wr (l # ls) (al, n)
          = Some (al @ o1 @ o2, n + length (o1 @ o2))"
      using o1(1) o2(1) by (simp add: add.assoc)
    show "mset (map fst (concat (o1 @ o2)))
          = mset (concat (concat (map (groups_of wr) (l # ls))))"
      using o1(2) o2(2) by simp
    show "set (map snd (concat (o1 @ o2))) \<subseteq> {1..k}"
      using o1(3) o2(3) by simp
  qed
qed

lemma class_then_score_insort:
  assumes "sorted_wrt class_then_score zs"
    and "\<forall>z \<in> set zs. score (fst z) \<le> score (fst x)"
  shows "sorted_wrt class_then_score (insort_key snd x zs)"
  using assms
proof (induction zs)
  case Nil
  show ?case by simp
next
  case (Cons z zs)
  show ?case
  proof (cases "snd x \<le> snd z")
    case True
    have "class_then_score x w" if "w \<in> set (z # zs)" for w
    proof -
      have "snd z \<le> snd w" using that Cons.prems(1) by (auto simp: class_then_score_def)
      with True have "snd x \<le> snd w" by simp
      moreover have "score (fst w) \<le> score (fst x)" using that Cons.prems(2) by auto
      ultimately show ?thesis by (auto simp: class_then_score_def)
    qed
    with True Cons.prems(1) show ?thesis by simp
  next
    case False
    then have "class_then_score z x" by (simp add: class_then_score_def)
    moreover from Cons have "sorted_wrt class_then_score (insort_key snd x zs)" by simp
    ultimately show ?thesis using False Cons.prems(1) by (auto simp: set_insort_key)
  qed
qed

lemma class_then_score_sort:
  assumes "sorted_wrt (\<lambda>a b. score (fst b) \<le> score (fst a)) ys"
  shows "sorted_wrt class_then_score (sort_key snd ys)"
  using assms
proof (induction ys)
  case Nil
  show ?case by simp
next
  case (Cons y ys)
  then have "sorted_wrt class_then_score (sort_key snd ys)"
    and "\<forall>z \<in> set (sort_key snd ys). score (fst z) \<le> score (fst y)" by simp_all
  then show ?case by (simp add: class_then_score_insort)
qed

lemma sorts_final_stable_final_sort: "sorts_final stable_final_sort"
proof -
  have "sorted_wrt (\<lambda>a b. score (fst b) \<le> score (fst a))
          (rev (sort_key (\<lambda>a. score (fst a)) ys))" for ys :: "assigned list"
    using sorted_sort_key[of "\<lambda>a. score (fst a)" ys] by (simp add: sorted_wrt_rev sorted_map)
  then show ?thesis
    by (simp add: sorts_final_def stable_final_sort_def class_then_score_sort)
qed

lemma sorts_final_mset: "sorts_final fsrt \<Longrightarrow> mset (fsrt xs) = mset xs"
  by (simp add: sorts_final_def)

lemma length_add_rank: "length (add_rank df) = length df"
  by (simp add: add_rank_def)

lemma load_data_fields:
  "K (fst (load_data d f)) = K d" "top_N (fst (load_data d f)) = top_N d"
  "bot_N (fst (load_data d f)) = bot_N d"
  "has_rural (fst (load_data d f)) = (has_origin_col f \<or> has_rural d)"
  by (simp_all add: load_data_def)

lemma run_unfold:
  "run srt shf fsrt d f =
     (let d' = fst (load_data d f); df = srt (add_rank (snd (load_data d f)))
      in if int (length df) < top_N d + bot_N d then Some (Inl InsufficientDataError)
         else if has_rural d' \<and> \<not> has_origin_col f then Some (Inl KeyError)
         else case distribute_layers srt shf (K d) (has_rural d')
                     [df_top d' df, df_mid d' df, df_bot d' df] ([], 0) of
                None \<Rightarrow> None
              | Some st \<Rightarrow>
                  if fst st = [] then Some (Inl ValueError)
                  else Some (Inr (fsrt (concat (fst st)))))"
  unfolding run_def Let_def case_prod_beta load_data_fields
  by (simp split: option.split)

text \<open>
  Without a class the list of class ids is empty, the pattern never grows and the loop
  of a non-empty sub-group does not end: the run does not return.
\<close>

lemma snake_loop_without_ids:
  assumes "snake_loop ci n pat = Some y"
  shows "ci = [] \<longrightarrow> n \<le> length pat"
proof (rule snake_loop.raw_induct[where P = "\<lambda>c m p z. c = [] \<longrightarrow> m \<le> length p", OF _ assms])
  fix f :: "int list \<Rightarrow> nat \<Rightarrow> int list \<Rightarrow> int list option" and c m p z
  assume IH: "\<And>c m p z. f c m p = Some z \<Longrightarrow> c = [] \<longrightarrow> m \<le> length p"
    and eq: "(if length p < m then f c m (p @ c @ rev c) else Some p) = Some z"
  show "c = [] \<longrightarrow> m \<le> length p"
  proof (intro impI, rule ccontr)
    assume e: "c = []" and "\<not> m \<le> length p"
    then have lt: "length p < m" by simp
    with eq have "f c m (p @ c @ rev c) = Some z" by simp
    from IH[OF this] e lt show False by simp
  qed
qed

lemma snake_loop_diverges: "length pat < n \<Longrightarrow> snake_loop [] n pat = None"
proof (rule ccontr)
  assume lt: "length pat < n" and "snake_loop [] n pat \<noteq> None"
  then obtain y where "snake_loop [] n pat = Some y" by auto
  from snake_loop_without_ids[OF this] lt show False by simp
qed

lemma distribute_sub_group_diverges:
  assumes "k \<le> 0" "sub \<noteq> []" "mset (shf (snd st) [1..k]) = mset [1..k]"
    "length (srt sub) = length sub"
  shows "distribute_sub_group srt shf k sub st = None"
proof -
  from assms(1) have "[1..k] = []" by simp
  with assms(3) have "shf (snd st) [1..k] = []" by simp
  moreover have "length ([]::int list) < length (srt sub)" using assms(2,4) by simp
  ultimately show ?thesis
    using assms(2) by (simp add: distribute_sub_group_def Let_def snake_loop_diverges)
qed

lemma example_no_class_diverges:
  "run stable_sort_desc example_shuffle stable_final_sort (init 0 10 10) example_frame = None"
proof -
  have "distribute_sub_group stable_sort_desc example_shuffle 0 sub st = None"
    if "sub \<noteq> []" for sub st
    using that is_shuffle_example_shuffle sorts_desc_stable_sort_desc
    by (intro distribute_sub_group_diverges) (simp_all add: is_shuffle_def sorts_desc_length)
  note div = this
  have emp: "distribute_sub_group stable_sort_desc example_shuffle 0 [] st = Some st" for st
    by (simp add: distribute_sub_group_def)
  show ?thesis
    by (simp add: run_unfold Let_def load_data_def clean_def List.map_filter_simps raw_def
        add_rank_def rank_min_desc_def init_def stable_sort_desc_def example_frame_def
        df_top_def df_mid_def df_bot_def slice_def norm_idx_def groups_of_def
        male_neq_female male_neq_female[symmetric] div emp)
qed

lemmas example_eval =
  run_unfold Let_def load_data_def clean_def List.map_filter_simps raw_def row_def
  add_rank_def rank_min_desc_def init_def stable_sort_desc_def stable_final_sort_def
  df_top_def df_mid_def df_bot_def slice_def norm_idx_def groups_of_def
  male_neq_female male_neq_female[symmetric]
  distribute_sub_group_eq[OF _ is_shuffle_example_shuffle sorts_desc_stable_sort_desc]
  snake_at_def example_shuffle_def upto.simps

lemma example_roster:
  "snd (load_data d example_frame)
   = [\<lparr>name = ''a'', gender = male, origin = [], score = 70\<rparr>,
      \<lparr>name = ''b'', gender = male, origin = [], score = 90\<rparr>,
      \<lparr>name = ''c'', gender = female, origin = [], score = 80\<rparr>,
      \<lparr>name = ''d'', gender = female, origin = [], score = 80\<rparr>,
      \<lparr>name = ''g'', gender = male, origin = [], score = 60\<rparr>,
      \<lparr>name = ''h'', gender = female, origin = [], score = 50\<rparr>]"
  by (simp add: load_data_def clean_def example_frame_def raw_def List.map_filter_simps)

lemma example_run:
  "run stable_sort_desc example_shuffle stable_final_sort (init 2 1 1) example_frame
   = Some (Inr [(row ''c'' female [] 80 2, 1), (row ''d'' female [] 80 2, 1),
                (row ''h'' female [] 50 6, 1), (row ''b'' male [] 90 1, 2),
                (row ''a'' male [] 70 4, 2), (row ''g'' male [] 60 5, 2)])"
  by (simp add: example_eval example_frame_def)

lemma example_abort:
  "run stable_sort_desc example_shuffle stable_final_sort (init 2 10 10) example_frame
   = Some (Inl InsufficientDataError)"
  by (simp add: example_eval example_frame_def)

text \<open>
  With a bottom quota of zero the bottom tier is the whole table, so the rows of the top
  tier are distributed twice.
\<close>

lemma example_zero_bottom_quota:
  "run stable_sort_desc example_shuffle stable_final_sort (init 1 1 0) two_row_frame
   = Some (Inr [(row ''b'' male [] 90 1, 1), (row ''b'' male [] 90 1, 1),
                (row ''a'' male [] 70 2, 1)])"
  by (simp add: example_eval two_row_frame_def)

text \<open>
  Claim C6. The run stops with the insufficient-data error exactly when the cleaned
  roster has fewer than \<open>top_N + bot_N\<close> rows; the error result carries no table, and
  the test comes before the tiers and the distribution. A roster of exactly
  \<open>top_N + bot_N\<close> rows passes the test, and its middle tier is empty.
\<close>

theorem insufficient_data_abort:
  assumes "sorts_desc srt"
  shows "(run srt shf fsrt d f = Some (Inl InsufficientDataError)
            \<longleftrightarrow> int (length (snd (load_data d f))) < top_N d + bot_N d)
       \<and> (int (length (snd (load_data d f))) = top_N d + bot_N d
            \<longrightarrow> df_mid (fst (load_data d f)) (srt (add_rank (snd (load_data d f)))) = [])"
proof -
  have len: "length (srt (add_rank (snd (load_data d f)))) = length (snd (load_data d f))"
    by (simp add: sorts_desc_length[OF assms] length_add_rank)
  have "run srt shf fsrt d f = Some (Inl InsufficientDataError)
            \<longleftrightarrow> int (length (snd (load_data d f))) < top_N d + bot_N d"
    by (simp add: run_unfold Let_def len split: option.split)
  moreover have "df_mid (fst (load_data d f)) (srt (add_rank (snd (load_data d f)))) = []"
    if "int (length (snd (load_data d f))) = top_N d + bot_N d"
    using that by (intro mid_empty_at_exact_size) (simp add: len load_data_fields)
  ultimately show ?thesis by blast
qed

theorem insufficient_data_abort_witness:
  "sorts_desc stable_sort_desc
   \<and> int (length (snd (load_data (init 2 2 1) example_frame)))
       = top_N (init 2 2 1) + bot_N (init 2 2 1)
   \<and> run stable_sort_desc example_shuffle stable_final_sort (init 2 2 1) example_frame
       \<noteq> Some (Inl InsufficientDataError)
   \<and> df_mid (fst (load_data (init 2 2 1) example_frame))
       (stable_sort_desc (add_rank (snd (load_data (init 2 2 1) example_frame)))) = []
   \<and> int (length (snd (load_data (init 2 10 10) example_frame)))
       < top_N (init 2 10 10) + bot_N (init 2 10 10)
   \<and> run stable_sort_desc example_shuffle stable_final_sort (init 2 10 10) example_frame
       = Some (Inl InsufficientDataError)"
proof -
  have e: "int (length (snd (load_data (init 2 2 1) example_frame)))
       = top_N (init 2 2 1) + bot_N (init 2 2 1)"
    and l: "int (length (snd (load_data (init 2 10 10) example_frame)))
       < top_N (init 2 10 10) + bot_N (init 2 10 10)"
    by (simp_all add: example_roster init_def)
  from e have "\<not> int (length (snd (load_data (init 2 2 1) example_frame)))
       < top_N (init 2 2 1) + bot_N (init 2 2 1)" by simp
  with e l
    insufficient_data_abort[OF sorts_desc_stable_sort_desc, of example_shuffle
      stable_final_sort "init 2 2 1" example_frame]
    insufficient_data_abort[OF sorts_desc_stable_sort_desc, of example_shuffle
      stable_final_sort "init 2 10 10" example_frame]
    sorts_desc_stable_sort_desc
  show ?thesis by blast
qed

text \<open>
  Claim C3 as stated fails: the sub-groups are selected by comparing the gender cell with
  the two literals, so a row with any other gender cell is in no sub-group. Here the
  roster has two rows with valid scores and the result has one.
\<close>

theorem student_with_other_gender_is_dropped:
  "snd (load_data (init 1 1 1) bad_gender_frame)
     = [\<lparr>name = ''a'', gender = male, origin = [], score = 70\<rparr>,
        \<lparr>name = ''x'', gender = ''F'', origin = [], score = 90\<rparr>]
   \<and> run stable_sort_desc example_shuffle stable_final_sort (init 1 1 1) bad_gender_frame
     = Some (Inr [(row ''a'' male [] 70 2, 1)])"
  by (simp add: example_eval bad_gender_frame_def male_def female_def)

text \<open>
  Claim C3, amended. When there is at least one class, the top quota is not negative,
  the bottom quota is positive, the roster has at least \<open>top_N + bot_N\<close> rows, every
  gender cell is one of the two literals and, with an origin column, every origin cell is
  one of its two literals, then the run returns a table that holds every row of the ranked
  roster exactly once, each with a class between 1 and \<open>K\<close>.
\<close>

theorem every_student_gets_one_class:
  assumes "1 \<le> K d" and "0 \<le> top_N d" and "0 < bot_N d"
    and "top_N d + bot_N d \<le> int (length (snd (load_data d f)))"
    and "is_shuffle shf" and "sorts_desc srt" and "sorts_final fsrt"
    and "has_rural d \<longrightarrow> has_origin_col f"
    and "\<forall>s \<in> set (snd (load_data d f)). gender s = male \<or> gender s = female"
    and "has_origin_col f
           \<longrightarrow> (\<forall>s \<in> set (snd (load_data d f)). origin s = urban \<or> origin s = rural)"
  shows "\<exists>res. run srt shf fsrt d f = Some (Inr res)
           \<and> mset (map fst res) = mset (add_rank (snd (load_data d f)))
           \<and> (\<forall>a \<in> set res. 1 \<le> snd a \<and> snd a \<le> K d)"
proof -
  let ?d = "fst (load_data d f)"
  let ?ranked = "add_rank (snd (load_data d f))"
  let ?df = "srt ?ranked"
  let ?wr = "has_rural ?d"
  let ?layers = "[df_top ?d ?df, df_mid ?d ?df, df_bot ?d ?df]"
  have len: "length ?df = length (snd (load_data d f))"
    by (simp add: sorts_desc_length[OF assms(6)] length_add_rank)
  have wr: "?wr = has_origin_col f" using assms(8) by (auto simp: load_data_fields)
  have part: "df_top ?d ?df @ df_mid ?d ?df @ df_bot ?d ?df = ?df"
    using assms(2-4) by (intro tiers_partition) (simp_all add: load_data_fields len)
  have rows: "set ?df = set ?ranked"
    using sorts_desc_mset[OF assms(6), of ?ranked] by (rule mset_eq_setD)
  have g: "\<forall>r \<in> set ?df. gender r = male \<or> gender r = female"
    unfolding rows using assms(9) by (auto simp: add_rank_def)
  have o: "?wr \<longrightarrow> (\<forall>r \<in> set ?df. origin r = urban \<or> origin r = rural)"
    unfolding rows wr using assms(10) by (auto simp: add_rank_def)
  have sub: "set l \<subseteq> set ?df" if "l \<in> set ?layers" for l
  proof -
    have "set (df_top ?d ?df) \<union> set (df_mid ?d ?df) \<union> set (df_bot ?d ?df) = set ?df"
      by (metis part set_append Un_assoc)
    with that show ?thesis by auto
  qed
  have gp: "mset (concat (groups_of ?wr l)) = mset l" if "l \<in> set ?layers" for l
    using sub[OF that] g o by (intro groups_partition) blast+
  have "mset (concat (concat (map (groups_of ?wr) ?layers)))
        = mset (df_top ?d ?df) + mset (df_mid ?d ?df) + mset (df_bot ?d ?df)"
    using gp by simp
  also have "\<dots> = mset ?df" by (metis part mset_append add.assoc)
  finally have all: "mset (concat (concat (map (groups_of ?wr) ?layers))) = mset ?ranked"
    by (simp only: sorts_desc_mset[OF assms(6)])
  from distribute_layers_out[OF assms(1,5,6), of ?wr ?layers "[]" 0] obtain out where
    out: "distribute_layers srt shf (K d) ?wr ?layers ([], 0) = Some (out, length out)"
         "mset (map fst (concat out)) = mset (concat (concat (map (groups_of ?wr) ?layers)))"
         "set (map snd (concat out)) \<subseteq> {1..K d}" by auto
  let ?res = "fsrt (concat out)"
  have "length ?ranked = length (snd (load_data d f))" by (rule length_add_rank)
  with assms(2-4) have "?ranked \<noteq> []" by auto
  with out(2) all have "out \<noteq> []" by auto
  then have run: "run srt shf fsrt d f = Some (Inr ?res)"
    using assms(4) out(1) wr by (simp add: run_unfold Let_def len)
  have m: "mset ?res = mset (concat out)" by (rule sorts_final_mset[OF assms(7)])
  have "mset (map fst ?res) = mset ?ranked"
    using m out(2) all by (metis mset_map)
  moreover have "\<forall>a \<in> set ?res. 1 \<le> snd a \<and> snd a \<le> K d"
  proof
    fix a assume "a \<in> set ?res"
    then have "a \<in> set (concat out)" using m by (metis mset_eq_setD)
    then have "snd a \<in> set (map snd (concat out))" by (metis imageI set_map)
    from subsetD[OF out(3) this] show "1 \<le> snd a \<and> snd a \<le> K d" by simp
  qed
  ultimately show ?thesis using run by blast
qed

theorem every_student_gets_one_class_witness:
  "1 \<le> K (init 2 1 1) \<and> 0 \<le> top_N (init 2 1 1) \<and> 0 < bot_N (init 2 1 1)
   \<and> top_N (init 2 1 1) + bot_N (init 2 1 1)
        \<le> int (length (snd (load_data (init 2 1 1) example_frame)))
   \<and> is_shuffle example_shuffle \<and> sorts_desc stable_sort_desc \<and> sorts_final stable_final_sort
   \<and> \<not> has_rural (init 2 1 1) \<and> \<not> has_origin_col example_frame
   \<and> list_all (\<lambda>s. gender s = male \<or> gender s = female)
        (snd (load_data (init 2 1 1) example_frame))
   \<and> (\<exists>res. run stable_sort_desc example_shuffle stable_final_sort (init 2 1 1) example_frame
               = Some (Inr res)
           \<and> mset (map fst res) = mset (add_rank (snd (load_data (init 2 1 1) example_frame)))
           \<and> (\<forall>a \<in> set res. 1 \<le> snd a \<and> snd a \<le> K (init 2 1 1)))"
proof -
  have h: "1 \<le> K (init 2 1 1)" "0 \<le> top_N (init 2 1 1)" "0 < bot_N (init 2 1 1)"
    "\<not> has_rural (init 2 1 1)" "\<not> has_origin_col example_frame"
    by (simp_all add: init_def example_frame_def)
  have n: "top_N (init 2 1 1) + bot_N (init 2 1 1)
        \<le> int (length (snd (load_data (init 2 1 1) example_frame)))"
    by (simp add: example_roster init_def)
  have g: "list_all (\<lambda>s. gender s = male \<or> gender s = female)
        (snd (load_data (init 2 1 1) example_frame))"
    by (simp add: example_roster)
  from g have g': "\<forall>s \<in> set (snd (load_data (init 2 1 1) example_frame)).
          gender s = male \<or> gender s = female"
    by (simp only: list_all_iff)
  from h have r: "has_rural (init 2 1 1) \<longrightarrow> has_origin_col example_frame"
    and o: "has_origin_col example_frame
        \<longrightarrow> (\<forall>s \<in> set (snd (load_data (init 2 1 1) example_frame)).
               origin s = urban \<or> origin s = rural)"
    by simp_all
  from every_student_gets_one_class[OF h(1-3) n is_shuffle_example_shuffle
      sorts_desc_stable_sort_desc sorts_final_stable_final_sort r g' o]
    h n g is_shuffle_example_shuffle sorts_desc_stable_sort_desc sorts_final_stable_final_sort
  show ?thesis by blast
qed

section \<open>Dependence on the random draws\<close>

lemma distribute_sub_group_cong:
  "shf1 (snd st) [1..k] = shf2 (snd st) [1..k]
   \<Longrightarrow> distribute_sub_group srt shf1 k g st = distribute_sub_group srt shf2 k g st"
  by (simp add: distribute_sub_group_def)

lemma distribute_sub_group_counter:
  "distribute_sub_group srt shf k g st = Some st'
   \<Longrightarrow> snd st \<le> snd st' \<and> snd st' \<le> Suc (snd st)"
  by (auto simp: distribute_sub_group_def Let_def split: if_splits option.splits)

lemma distribute_groups_counter:
  "distribute_groups srt shf k gs st = Some st'
   \<Longrightarrow> snd st \<le> snd st' \<and> snd st' \<le> snd st + length gs"
proof (induction gs arbitrary: st)
  case Nil
  then show ?case by simp
next
  case (Cons g gs)
  from Cons.prems obtain st1 where
    s1: "distribute_sub_group srt shf k g st = Some st1"
    and s2: "distribute_groups srt shf k gs st1 = Some st'"
    by (auto split: option.splits)
  from distribute_sub_group_counter[OF s1] Cons.IH[OF s2] show ?case by simp
qed

lemma distribute_groups_cong:
  assumes "\<forall>i. snd st \<le> i \<and> i < snd st + length gs \<longrightarrow> shf1 i [1..k] = shf2 i [1..k]"
  shows "distribute_groups srt shf1 k gs st = distribute_groups srt shf2 k gs st"
  using assms
proof (induction gs arbitrary: st)
  case Nil
  show ?case by simp
next
  case (Cons g gs)
  from Cons.prems have "shf1 (snd st) [1..k] = shf2 (snd st) [1..k]" by simp
  then have eq: "distribute_sub_group srt shf1 k g st = distribute_sub_group srt shf2 k g st"
    by (rule distribute_sub_group_cong)
  show ?case
  proof (cases "distribute_sub_group srt shf2 k g st")
    case None
    with eq show ?thesis by simp
  next
    case (Some st1)
    from distribute_sub_group_counter[OF Some] Cons.prems
    have "\<forall>i. snd st1 \<le> i \<and> i < snd st1 + length gs \<longrightarrow> shf1 i [1..k] = shf2 i [1..k]"
      by auto
    from Cons.IH[OF this] eq Some show ?thesis by simp
  qed
qed

lemma length_groups_of: "length (groups_of wr l) = (if wr then 4 else 2)"
  by (simp add: groups_of_def)

lemma distribute_layers_cong:
  assumes "\<forall>i. snd st \<le> i \<and> i < snd st + length ls * (if wr then 4 else 2)
             \<longrightarrow> shf1 i [1..k] = shf2 i [1..k]"
  shows "distribute_layers srt shf1 k wr ls st = distribute_layers srt shf2 k wr ls st"
  using assms
proof (induction ls arbitrary: st)
  case Nil
  show ?case by simp
next
  case (Cons l ls)
  let ?m = "if wr then 4 else 2 :: nat"
  from Cons.prems have
    "\<forall>i. snd st \<le> i \<and> i < snd st + length (groups_of wr l) \<longrightarrow> shf1 i [1..k] = shf2 i [1..k]"
    by (simp add: length_groups_of)
  then have eq: "distribute_groups srt shf1 k (groups_of wr l) st
               = distribute_groups srt shf2 k (groups_of wr l) st"
    by (rule distribute_groups_cong)
  show ?case
  proof (cases "distribute_groups srt shf2 k (groups_of wr l) st")
    case None
    with eq show ?thesis by simp
  next
    case (Some st1)
    from distribute_groups_counter[OF Some]
    have c: "snd st \<le> snd st1" "snd st1 \<le> snd st + ?m" by (simp_all add: length_groups_of)
    have "\<forall>i. snd st1 \<le> i \<and> i < snd st1 + length ls * ?m \<longrightarrow> shf1 i [1..k] = shf2 i [1..k]"
    proof (intro allI impI)
      fix i assume "snd st1 \<le> i \<and> i < snd st1 + length ls * ?m"
      with c have "snd st \<le> i \<and> i < snd st + length (l # ls) * ?m" by simp
      with Cons.prems show "shf1 i [1..k] = shf2 i [1..k]" by blast
    qed
    from Cons.IH[OF this] eq Some show ?thesis by simp
  qed
qed

text \<open>
  Claim C8. Two runs on the same input whose generators deliver the same permutation of
  the class ids at every draw (there are at most six draws, twelve with an origin column)
  return the same result, whatever else the generators would do.
\<close>

theorem run_fixed_by_the_draws:
  assumes "\<forall>i < (if has_origin_col f \<or> has_rural d then 12 else 6).
             shf1 i [1..K d] = shf2 i [1..K d]"
  shows "run srt shf1 fsrt d f = run srt shf2 fsrt d f"
proof -
  let ?d = "fst (load_data d f)"
  let ?df = "srt (add_rank (snd (load_data d f)))"
  let ?layers = "[df_top ?d ?df, df_mid ?d ?df, df_bot ?d ?df]"
  have b: "length ?layers * (if has_rural ?d then 4 else 2)
           = (if has_origin_col f \<or> has_rural d then 12 else 6)"
    by (simp add: load_data_fields)
  have "distribute_layers srt shf1 (K d) (has_rural ?d) ?layers ([], 0)
      = distribute_layers srt shf2 (K d) (has_rural ?d) ?layers ([], 0)"
  proof (rule distribute_layers_cong, intro allI impI)
    fix i
    assume "snd ([]::assigned list list, 0::nat) \<le> i
          \<and> i < snd ([]::assigned list list, 0::nat)
                  + length ?layers * (if has_rural ?d then 4 else 2)"
    then have "i < (if has_origin_col f \<or> has_rural d then 12 else 6)"
      by (simp only: b snd_conv add_0)
    with assms show "shf1 i [1..K d] = shf2 i [1..K d]" by blast
  qed
  then show ?thesis by (simp only: run_unfold Let_def)
qed

theorem run_fixed_by_the_draws_witness:
  "list_all (\<lambda>i. example_shuffle i [1..K (init 2 1 1)] = other_shuffle i [1..K (init 2 1 1)])
     [0..<6]
   \<and> \<not> has_origin_col example_frame \<and> \<not> has_rural (init 2 1 1)
   \<and> example_shuffle 6 [1, 2] \<noteq> other_shuffle 6 [1, 2]
   \<and> run stable_sort_desc example_shuffle stable_final_sort (init 2 1 1) example_frame
     = run stable_sort_desc other_shuffle stable_final_sort (init 2 1 1) example_frame"
proof -
  have a: "list_all (\<lambda>i. example_shuffle i [1..K (init 2 1 1)]
                        = other_shuffle i [1..K (init 2 1 1)]) [0..<6]"
    by (simp add: list_all_iff other_shuffle_def)
  have c: "\<not> has_origin_col example_frame" "\<not> has_rural (init 2 1 1)"
    by (simp_all add: example_frame_def init_def)
  have h: "\<forall>i < (if has_origin_col example_frame \<or> has_rural (init 2 1 1) then 12 else 6).
       example_shuffle i [1..K (init 2 1 1)] = other_shuffle i [1..K (init 2 1 1)]"
    using a c by (simp add: list_all_iff)
  have "example_shuffle 6 [1, 2] \<noteq> other_shuffle 6 [1, 2]"
    by (simp add: example_shuffle_def other_shuffle_def)
  moreover have "run stable_sort_desc example_shuffle stable_final_sort (init 2 1 1)
          example_frame
        = run stable_sort_desc other_shuffle stable_final_sort (init 2 1 1) example_frame"
    using h by (rule run_fixed_by_the_draws)
  ultimately show ?thesis using a c by blast
qed

section \<open>The average row of the balance report\<close>

lemma uneven_sheet_classes:
  "class_keys uneven_sheet = [1, 2]"
  "class_group uneven_sheet 1 = [rep 1 male 100]"
  "class_group uneven_sheet 2 = [rep 2 male 70, rep 2 female 70]"
  by (simp_all add: class_keys_def class_group_def uneven_sheet_def rep_def)

lemma uneven_sheet_average:
  assumes "series_mean ops [100] = 100" "series_mean ops [70, 70] = 70"
    "round2 ops 100 = 100" "round2 ops 70 = 70" "frame_mean ops [100, 70] = 85"
  shows "avg_score (snd (last (analyze_class_balance ops uneven_sheet))) = Some 85"
  using assms
  by (simp add: analyze_class_balance_def class_stats_def uneven_sheet_classes calc_stats_def
      avg_row_def col_mean_def List.map_filter_simps Let_def rep_def)
    (simp add: uneven_sheet_def)

lemma col_mean_all_some:
  assumes "result \<noteq> []"
  shows "col_mean ops (map (\<lambda>r. Some (h r)) result) = Some (frame_mean ops (map h result))"
proof -
  have "List.map_filter id (map (\<lambda>r. Some (h r)) result) = map h result"
    by (induction result) (simp_all add: List.map_filter_simps)
  with assms show ?thesis by (simp add: col_mean_def)
qed

lemma class_keys_nonempty: "report_rows f \<noteq> [] \<Longrightarrow> class_keys f \<noteq> []"
proof -
  assume "report_rows f \<noteq> []"
  then have "set (class_keys f) \<noteq> {}" by (simp add: class_keys_def)
  then show ?thesis by auto
qed

text \<open>
  Claim C10. The row labelled as the average holds, in every column, the library's mean
  of that column of the per-class table: one value per class, whatever the size of the
  class, and nothing computed from the students directly. So its mean-score entry can
  differ from the mean score of all students: with one student of score 100 in class 1
  and two students of score 70 in class 2, where the float64 operations return
  100, 70, 85 and 80, the entry is 85 and the mean over the three students is 80.
\<close>

theorem average_row_is_mean_of_class_rows:
  assumes "report_rows f \<noteq> []"
  shows "\<exists>a. analyze_class_balance ops f
             = map (\<lambda>k. (ClassRow k, calc_stats ops f (class_group f k))) (class_keys f)
               @ [(AverageRow, a)]
         \<and> boys a = Some (frame_mean ops
               (map (\<lambda>k. count_eq r_gender male (class_group f k)) (class_keys f)))
         \<and> girls a = Some (frame_mean ops
               (map (\<lambda>k. count_eq r_gender female (class_group f k)) (class_keys f)))
         \<and> total a = Some (frame_mean ops
               (map (\<lambda>k. real (length (class_group f k))) (class_keys f)))
         \<and> (has_score_col f \<longrightarrow>
              avg_score a = Some (frame_mean ops
                (map (\<lambda>k. round2 ops (series_mean ops (map r_score (class_group f k))))
                   (class_keys f))))
         \<and> (has_rural_col f \<longrightarrow>
              urban_n a = Some (frame_mean ops
                (map (\<lambda>k. count_eq r_origin urban (class_group f k)) (class_keys f)))
            \<and> rural_n a = Some (frame_mean ops
                (map (\<lambda>k. count_eq r_origin rural (class_group f k)) (class_keys f))))
         \<and> (series_mean ops [100] = 100 \<and> series_mean ops [70, 70] = 70
              \<and> round2 ops 100 = 100 \<and> round2 ops 70 = 70
              \<and> frame_mean ops [100, 70] = 85 \<and> series_mean ops [100, 70, 70] = 80
            \<longrightarrow> avg_score (snd (last (analyze_class_balance ops uneven_sheet))) = Some 85
              \<and> series_mean ops (map r_score (report_rows uneven_sheet)) = 80
              \<and> avg_score (snd (last (analyze_class_balance ops uneven_sheet)))
                  \<noteq> Some (series_mean ops (map r_score (report_rows uneven_sheet))))"
proof -
  let ?res = "class_stats ops f"
  from class_keys_nonempty[OF assms] have ne: "?res \<noteq> []" by (simp add: class_stats_def)
  have tab: "analyze_class_balance ops f
             = map (\<lambda>k. (ClassRow k, calc_stats ops f (class_group f k))) (class_keys f)
               @ [(AverageRow, avg_row ops ?res)]"
    by (simp add: analyze_class_balance_def class_stats_def Let_def comp_def)
  have col: "col_mean ops (map (\<lambda>r. Some (h r)) ?res) = Some (frame_mean ops (map h ?res))"
    for h
    by (rule col_mean_all_some[OF ne])
  have b: "boys (avg_row ops ?res) = Some (frame_mean ops
               (map (\<lambda>k. count_eq r_gender male (class_group f k)) (class_keys f)))"
    using col[of "\<lambda>r. count_eq r_gender male (class_group f (fst r))"]
    by (simp add: avg_row_def class_stats_def calc_stats_def comp_def)
  have g: "girls (avg_row ops ?res) = Some (frame_mean ops
               (map (\<lambda>k. count_eq r_gender female (class_group f k)) (class_keys f)))"
    using col[of "\<lambda>r. count_eq r_gender female (class_group f (fst r))"]
    by (simp add: avg_row_def class_stats_def calc_stats_def comp_def)
  have t: "total (avg_row ops ?res) = Some (frame_mean ops
               (map (\<lambda>k. real (length (class_group f k))) (class_keys f)))"
    using col[of "\<lambda>r. real (length (class_group f (fst r)))"]
    by (simp add: avg_row_def class_stats_def calc_stats_def comp_def)
  have s: "avg_score (avg_row ops ?res) = Some (frame_mean ops
                (map (\<lambda>k. round2 ops (series_mean ops (map r_score (class_group f k))))
                   (class_keys f)))"
    if "has_score_col f"
    using col[of "\<lambda>r. round2 ops (series_mean ops (map r_score (class_group f (fst r))))"] that
    by (simp add: avg_row_def class_stats_def calc_stats_def comp_def)
  have u: "urban_n (avg_row ops ?res) = Some (frame_mean ops
                (map (\<lambda>k. count_eq r_origin urban (class_group f k)) (class_keys f)))"
    if "has_rural_col f"
    using col[of "\<lambda>r. count_eq r_origin urban (class_group f (fst r))"] that
    by (simp add: avg_row_def class_stats_def calc_stats_def comp_def)
  have r: "rural_n (avg_row ops ?res) = Some (frame_mean ops
                (map (\<lambda>k. count_eq r_origin rural (class_group f k)) (class_keys f)))"
    if "has_rural_col f"
    using col[of "\<lambda>r. count_eq r_origin rural (class_group f (fst r))"] that
    by (simp add: avg_row_def class_stats_def calc_stats_def comp_def)
  have e: "avg_score (snd (last (analyze_class_balance ops uneven_sheet))) = Some 85
              \<and> series_mean ops (map r_score (report_rows uneven_sheet)) = 80
              \<and> avg_score (snd (last (analyze_class_balance ops uneven_sheet)))
                  \<noteq> Some (series_mean ops (map r_score (report_rows uneven_sheet)))"
    if "series_mean ops [100] = 100 \<and> series_mean ops [70, 70] = 70
              \<and> round2 ops 100 = 100 \<and> round2 ops 70 = 70
              \<and> frame_mean ops [100, 70] = 85 \<and> series_mean ops [100, 70, 70] = 80"
  proof -
    from that have "avg_score (snd (last (analyze_class_balance ops uneven_sheet))) = Some 85"
      by (intro uneven_sheet_average) simp_all
    moreover from that have "series_mean ops (map r_score (report_rows uneven_sheet)) = 80"
      by (simp add: uneven_sheet_def rep_def)
    ultimately show ?thesis by simp
  qed
  from tab b g t s u r e show ?thesis by blast
qed

theorem average_row_is_mean_of_class_rows_witness:
  "report_rows uneven_sheet \<noteq> [] \<and> has_score_col uneven_sheet
   \<and> class_keys uneven_sheet = [1, 2]
   \<and> series_mean exact_ops [100] = 100 \<and> series_mean exact_ops [70, 70] = 70
   \<and> round2 exact_ops 100 = 100 \<and> round2 exact_ops 70 = 70
   \<and> frame_mean exact_ops [100, 70] = 85 \<and> series_mean exact_ops [100, 70, 70] = 80
   \<and> (\<exists>a. analyze_class_balance exact_ops uneven_sheet
             = map (\<lambda>k. (ClassRow k,
                         calc_stats exact_ops uneven_sheet (class_group uneven_sheet k)))
                 (class_keys uneven_sheet) @ [(AverageRow, a)]
         \<and> avg_score a
             = Some (frame_mean exact_ops
                 (map (\<lambda>k. round2 exact_ops
                         (series_mean exact_ops (map r_score (class_group uneven_sheet k))))
                    (class_keys uneven_sheet))))
   \<and> avg_score (snd (last (analyze_class_balance exact_ops uneven_sheet))) = Some 85
   \<and> series_mean exact_ops (map r_score (report_rows uneven_sheet)) = 80
   \<and> avg_score (snd (last (analyze_class_balance exact_ops uneven_sheet)))
       \<noteq> Some (series_mean exact_ops (map r_score (report_rows uneven_sheet)))"
proof -
  have ne: "report_rows uneven_sheet \<noteq> []" and sc: "has_score_col uneven_sheet"
    by (simp_all add: uneven_sheet_def)
  have v: "series_mean exact_ops [100] = 100 \<and> series_mean exact_ops [70, 70] = 70
       \<and> round2 exact_ops 100 = 100 \<and> round2 exact_ops 70 = 70
       \<and> frame_mean exact_ops [100, 70] = 85 \<and> series_mean exact_ops [100, 70, 70] = 80"
    by (simp add: exact_ops_def exact_mean_def exact_round2_def half_even_def)
  from average_row_is_mean_of_class_rows[OF ne, of exact_ops] sc v
    ne uneven_sheet_classes(1)
  show ?thesis by blast
qed

end
